theory Spec2Isabelle
  imports Complex_Main "HOL-Library.Log_Nat"
begin

section \<open>Data model\<close>

text \<open>
  The analysis hooks of \<^verbatim>\<open>utils/analysis.py\<close>. Python exceptions are values of
  \<open>error\<close>; a raising call returns \<open>Inl\<close>.
\<close>

datatype error =
    AssertionError
  | KeyError
  | IndexError
  | ValueError
  | RuntimeError
  | ZeroDivisionError

text \<open>
  \<^verbatim>\<open>Node\<close> (from \<^verbatim>\<open>utils.data.custom\<close>, consumed read-only): the fields
  the analysis reads. \<open>new_to_old_classes\<close> is subscripted by a node-local class
  index and yields the list of original class indices of that group.
\<close>

record node =
  wnid :: string
  children :: "string list"
  num_classes :: nat
  new_to_old_classes :: "nat \<rightharpoonup> nat list"

text \<open>
  A two-dimensional tensor of scores of type \<open>'a\<close>: \<open>size1\<close> is
  \<^verbatim>\<open>t.size(1)\<close>, \<open>rows\<close> the samples; \<^verbatim>\<open>t.size(0)\<close> is
  \<open>length (rows t)\<close>.
\<close>

record 'a tensor =
  size1 :: nat
  rows :: "'a list list"

definition well_shaped :: "'a tensor \<Rightarrow> bool" where
  "well_shaped t = list_all (\<lambda>r. length r = size1 t) (rows t)"

text \<open>
  The floating-point arithmetic is torch's and numpy's, not this file's: the
  code is modelled over any type \<open>'a\<close> of scores and any \<open>library\<close> of the
  operations it calls on them. \<open>torch_mean\<close> is \<^verbatim>\<open>.mean(dim=0)\<close> of the
  selected scores of one sample (whatever it gives for none of them),
  \<open>torch_softmax\<close> is \<^verbatim>\<open>nn.Softmax(dim=1)\<close> on one row, \<open>np_one\<close> an entry
  of \<^verbatim>\<open>np.ones\<close>, \<open>np_mul\<close> the product of two entries, \<open>float_le\<close> the
  comparison \<^verbatim>\<open><=\<close> and \<open>float_isnan\<close> the test for a NaN.
\<close>

record 'a library =
  torch_mean :: "'a list \<Rightarrow> 'a"
  torch_softmax :: "'a list \<Rightarrow> 'a list"
  np_one :: 'a
  np_mul :: "'a \<Rightarrow> 'a \<Rightarrow> 'a"
  float_le :: "'a \<Rightarrow> 'a \<Rightarrow> bool"
  float_isnan :: "'a \<Rightarrow> bool"

text \<open>
  The state of a \<^verbatim>\<open>Noop\<close> object is its \<^verbatim>\<open>epoch\<close> (\<open>None\<close> until
  \<^verbatim>\<open>start_epoch\<close>); subclasses extend it. \<open>tree_prior\<close> is the state of a
  \<^verbatim>\<open>DecisionTreePrior\<close> object and of its subclass
  \<^verbatim>\<open>DecisionTreeBayesianPrior\<close>. \<open>wnid_root\<close> stands for
  \<^verbatim>\<open>get_root(self.G)\<close>; \<open>wnids\<close> for \<^verbatim>\<open>get_wnids(path_wnids)\<close>.
\<close>

record noop =
  epoch :: "int option"

record tree_prior = noop +
  nodes :: "node list"
  wnid_root :: string
  wnids :: "string list"
  classes :: "string list"
  correct :: nat
  total :: nat

text \<open>The state of an \<^verbatim>\<open>IgnoredSamples\<close> object.\<close>

record ignored_samples = noop +
  ignored :: "nat option"

text \<open>
  \<^verbatim>\<open>{node.wnid: node for node in self.nodes}\<close> and
  \<^verbatim>\<open>{wnid: cls for wnid, cls in zip(self.wnids, self.classes)}\<close>: a later entry
  with the same key replaces an earlier one.
\<close>

definition wnid_to_node :: "tree_prior \<Rightarrow> string \<rightharpoonup> node" where
  "wnid_to_node self = map_of (rev (map (\<lambda>nd. (wnid nd, nd)) (nodes self)))"

definition wnid_to_class :: "tree_prior \<Rightarrow> string \<rightharpoonup> string" where
  "wnid_to_class self = map_of (rev (zip (wnids self) (classes self)))"

section \<open>Python, numpy and torch primitives\<close>

text \<open>\<^verbatim>\<open>xs[i]\<close> for a Python int \<open>i\<close>: a negative index counts from the end.\<close>

definition getitem :: "'a list \<Rightarrow> int \<Rightarrow> error + 'a" where
  "getitem xs i =
     (if 0 \<le> i \<and> i < int (length xs) then Inr (xs ! nat i)
      else if i < 0 \<and> - int (length xs) \<le> i then Inr (xs ! nat (int (length xs) + i))
      else Inl IndexError)"

text \<open>\<^verbatim>\<open>xs.index(x)\<close>: the first position of \<open>x\<close>, \<open>None\<close> where Python raises.\<close>

fun list_index :: "'a list \<Rightarrow> 'a \<Rightarrow> nat option" where
  "list_index [] x = None"
| "list_index (y # ys) x = (if y = x then Some 0 else map_option Suc (list_index ys x))"

text \<open>
  The position \<^verbatim>\<open>np.argmax\<close> gives for one row, and the index
  \<^verbatim>\<open>torch.max(_, dim=1)\<close> gives: the scan keeps the first entry and moves on
  to a later one that is not \<^verbatim>\<open><=\<close> the kept one; a NaN, once kept, stays.
  Callers exclude the empty row.
\<close>

fun argmax_from :: "'a library \<Rightarrow> nat \<Rightarrow> 'a \<Rightarrow> nat \<Rightarrow> 'a list \<Rightarrow> nat" where
  "argmax_from L best mp i [] = best"
| "argmax_from L best mp i (x # xs) =
     (if float_isnan L mp then best
      else if \<not> float_le L x mp then argmax_from L i x (Suc i) xs
      else argmax_from L best mp (Suc i) xs)"

definition argmax :: "'a library \<Rightarrow> 'a list \<Rightarrow> nat" where
  "argmax L xs = (case xs of [] \<Rightarrow> 0 | x # ys \<Rightarrow> argmax_from L 0 x 1 ys)"

text \<open>
  \<^verbatim>\<open>torch.Tensor(preds).long()\<close> on one entry: the Python int becomes a
  float32 (24 significant bits, round to nearest, ties to even) and the float32
  an int64 again. \<open>bitlen\<close> is the number of binary digits. Entries are \<open>-1\<close>
  or list positions, far below the magnitudes at which a float32 or an int64
  overflows.
\<close>

definition float32_long :: "int \<Rightarrow> int" where
  "float32_long n =
     (let a = \<bar>n\<bar>; q = 2 ^ nat (bitlen a - 24); m = a div q; r = a mod q
      in sgn n * ((if 2 * r < q \<or> (2 * r = q \<and> even m) then m else m + 1) * q))"

section \<open>Hard routing: \<^verbatim>\<open>DecisionTreePrior.traverse_tree\<close>\<close>

text \<open>\<^verbatim>\<open>sum(selector[:index + 1]) - 1\<close>\<close>

definition index_new :: "bool list \<Rightarrow> nat \<Rightarrow> int" where
  "index_new selector index = int (length (filter id (take (index + 1) selector))) - 1"

text \<open>
  The \<^verbatim>\<open>while node is not None\<close> loop for one sample, entered at \<open>nd\<close>. The
  value is the \<^verbatim>\<open>wnid\<close> the loop leaves behind (\<open>None\<close> after a
  \<^verbatim>\<open>wnid = node = None; break\<close>), or the exception raised; a loop that
  never ends has the value \<open>None\<close> of the outer option.
\<close>

partial_function (option) walk ::
  "tree_prior \<Rightarrow> (string \<rightharpoonup> int list \<times> bool list) \<Rightarrow> nat \<Rightarrow> node
     \<Rightarrow> (error + string option) option" where
  "walk self wnid_to_pred_selector index nd =
     (case wnid_to_pred_selector (wnid nd) of
        None \<Rightarrow> Some (Inr None)
      | Some ps \<Rightarrow>
          (if length (snd ps) \<le> index then Some (Inl IndexError)
           else if \<not> snd ps ! index then Some (Inr None)
           else (case getitem (fst ps) (index_new (snd ps) index) of
                   Inl e \<Rightarrow> Some (Inl e)
                 | Inr index_child \<Rightarrow>
                     (case getitem (children nd) index_child of
                        Inl e \<Rightarrow> Some (Inl e)
                      | Inr w \<Rightarrow>
                          (case wnid_to_node self w of
                             None \<Rightarrow> Some (Inr (Some w))
                           | Some nd' \<Rightarrow> walk self wnid_to_pred_selector index nd')))))"

text \<open>
  \<^verbatim>\<open>cls = self.wnid_to_class.get(wnid, None)\<close>;
  \<^verbatim>\<open>pred = -1 if cls is None else self.classes.index(cls)\<close>
\<close>

definition leaf_pred :: "tree_prior \<Rightarrow> string option \<Rightarrow> error + int" where
  "leaf_pred self w =
     (case (case w of None \<Rightarrow> None | Some x \<Rightarrow> wnid_to_class self x) of
        None \<Rightarrow> Inr (- 1)
      | Some cls \<Rightarrow>
          (case list_index (classes self) cls of
             None \<Rightarrow> Inl ValueError
           | Some i \<Rightarrow> Inr (int i)))"

text \<open>
  One pass of the \<^verbatim>\<open>for index in range(n_samples)\<close> body: the \<^verbatim>\<open>pred\<close>
  it appends.
\<close>

definition sample_pred ::
  "tree_prior \<Rightarrow> (string \<rightharpoonup> int list \<times> bool list) \<Rightarrow> node \<Rightarrow> nat
     \<Rightarrow> (error + int) option" where
  "sample_pred self wnid_to_pred_selector node_root index =
     (case walk self wnid_to_pred_selector index node_root of
        None \<Rightarrow> None
      | Some (Inl e) \<Rightarrow> Some (Inl e)
      | Some (Inr w) \<Rightarrow> Some (leaf_pred self w))"

text \<open>
  \<^verbatim>\<open>preds.append(pred)\<close> over the samples in order: the first sample that
  raises or never ends decides the outcome of the whole call.
\<close>

fun for_samples :: "(nat \<Rightarrow> (error + int) option) \<Rightarrow> nat list \<Rightarrow> (error + int list) option" where
  "for_samples body [] = Some (Inr [])"
| "for_samples body (index # rest) =
     (case body index of
        None \<Rightarrow> None
      | Some (Inl e) \<Rightarrow> Some (Inl e)
      | Some (Inr pred) \<Rightarrow>
          (case for_samples body rest of
             None \<Rightarrow> None
           | Some (Inl e) \<Rightarrow> Some (Inl e)
           | Some (Inr preds) \<Rightarrow> Some (Inr (pred # preds))))"

text \<open>
  \<^verbatim>\<open>traverse_tree(self, _, wnid_to_pred_selector, n_samples)\<close>; the second
  argument is the caller's \<^verbatim>\<open>predicted\<close>. The value returned is
  \<^verbatim>\<open>torch.Tensor(preds).long()\<close>.
\<close>

definition traverse_tree ::
  "tree_prior \<Rightarrow> int list \<Rightarrow> (string \<rightharpoonup> int list \<times> bool list) \<Rightarrow> nat
     \<Rightarrow> (error + int list) option" where
  "traverse_tree self predicted wnid_to_pred_selector n_samples =
     (case wnid_to_node self (wnid_root self) of
        None \<Rightarrow> Some (Inl KeyError)
      | Some node_root \<Rightarrow>
          (case for_samples (sample_pred self wnid_to_pred_selector node_root) [0..<n_samples] of
             None \<Rightarrow> None
           | Some (Inl e) \<Rightarrow> Some (Inl e)
           | Some (Inr preds) \<Rightarrow> Some (Inr (map float32_long preds))))"

section \<open>Hard routing: \<^verbatim>\<open>DecisionTreePrior.update_batch\<close>\<close>

text \<open>
  \<^verbatim>\<open>TreeSup.inference\<close> lives in \<^verbatim>\<open>models.trees\<close>;
  \<open>update_batch\<close> takes it as an argument. It returns
  \<^verbatim>\<open>(selector, outputs_sub, targets_sub)\<close>.
\<close>

type_synonym 'a inference_fn =
  "node \<Rightarrow> 'a tensor \<Rightarrow> int list \<Rightarrow> error + (bool list \<times> 'a tensor \<times> int list)"

text \<open>
  \<^verbatim>\<open>_, preds_sub = torch.max(outputs_sub, dim=1)\<close>;
  \<^verbatim>\<open>preds_sub = list(map(int, preds_sub.cpu()))\<close>. torch refuses to reduce
  a dimension of size zero.
\<close>

definition max_dim1 :: "'a library \<Rightarrow> 'a tensor \<Rightarrow> error + int list" where
  "max_dim1 L t =
     (if size1 t = 0 then Inl IndexError else Inr (map (\<lambda>r. int (argmax L r)) (rows t)))"

text \<open>The \<^verbatim>\<open>for node in self.nodes\<close> loop that fills \<^verbatim>\<open>wnid_to_pred_selector\<close>.\<close>

fun pred_selectors ::
  "'a library \<Rightarrow> 'a inference_fn \<Rightarrow> node list \<Rightarrow> 'a tensor \<Rightarrow> int list
     \<Rightarrow> (string \<rightharpoonup> int list \<times> bool list)
     \<Rightarrow> error + (string \<rightharpoonup> int list \<times> bool list)" where
  "pred_selectors L inference [] outputs targets wnid_to_pred_selector =
     Inr wnid_to_pred_selector"
| "pred_selectors L inference (nd # rest) outputs targets wnid_to_pred_selector =
     (case inference nd outputs targets of
        Inl e \<Rightarrow> Inl e
      | Inr res \<Rightarrow>
          (if \<not> list_ex id (fst res)
           then pred_selectors L inference rest outputs targets wnid_to_pred_selector
           else (case max_dim1 L (fst (snd res)) of
                   Inl e \<Rightarrow> Inl e
                 | Inr preds_sub \<Rightarrow>
                     pred_selectors L inference rest outputs targets
                       (wnid_to_pred_selector(wnid nd \<mapsto> (preds_sub, fst res))))))"

text \<open>
  \<^verbatim>\<open>(predicted == targets).sum().item()\<close> on two one-dimensional tensors:
  elementwise when the sizes agree, broadcast when one of them has size one,
  a RuntimeError otherwise.
\<close>

definition count_equal :: "int list \<Rightarrow> int list \<Rightarrow> error + nat" where
  "count_equal predicted targets =
     (if length predicted = length targets
      then Inr (length (filter (\<lambda>pt. fst pt = snd pt) (zip predicted targets)))
      else if length targets = 1
      then Inr (length (filter (\<lambda>p. p = targets ! 0) predicted))
      else if length predicted = 1
      then Inr (length (filter (\<lambda>t. predicted ! 0 = t) targets))
      else Inl RuntimeError)"

text \<open>
  The bookkeeping both \<^verbatim>\<open>update_batch\<close> methods end with, from
  \<^verbatim>\<open>self.total += n_samples\<close> on. The object is returned as the call
  leaves it, also when the call raises. The progress string itself (a rounded
  float) is not modelled: a normal return is \<open>None\<close>.
\<close>

definition bookkeeping ::
  "tree_prior \<Rightarrow> nat \<Rightarrow> int list \<Rightarrow> int list \<Rightarrow> tree_prior \<times> error option" where
  "bookkeeping self n_samples predicted targets =
     (let self1 = self\<lparr>total := total self + n_samples\<rparr> in
      case count_equal predicted targets of
        Inl e \<Rightarrow> (self1, Some e)
      | Inr c \<Rightarrow>
          (let self2 = self1\<lparr>correct := correct self1 + c\<rparr> in
           if total self2 = 0 then (self2, Some ZeroDivisionError) else (self2, None)))"

text \<open>
  \<^verbatim>\<open>DecisionTreePrior.update_batch\<close>; \<^verbatim>\<open>super().update_batch\<close> is
  \<^verbatim>\<open>pass\<close>. \<open>hard_predicted\<close> is the value bound to \<^verbatim>\<open>predicted\<close> by
  the call of \<^verbatim>\<open>traverse_tree\<close>.
\<close>

definition hard_predicted ::
  "'a library \<Rightarrow> 'a inference_fn \<Rightarrow> tree_prior \<Rightarrow> 'a tensor \<Rightarrow> int list \<Rightarrow> int list
     \<Rightarrow> (error + int list) option" where
  "hard_predicted L inference self outputs predicted targets =
     (case pred_selectors L inference (nodes self) outputs targets Map.empty of
        Inl e \<Rightarrow> Some (Inl e)
      | Inr wnid_to_pred_selector \<Rightarrow>
          traverse_tree self predicted wnid_to_pred_selector (length (rows outputs)))"

definition update_batch ::
  "'a library \<Rightarrow> 'a inference_fn \<Rightarrow> tree_prior \<Rightarrow> 'a tensor \<Rightarrow> int list \<Rightarrow> int list
     \<Rightarrow> (tree_prior \<times> error option) option" where
  "update_batch L inference self outputs predicted targets =
     (case hard_predicted L inference self outputs predicted targets of
        None \<Rightarrow> None
      | Some (Inl e) \<Rightarrow> Some (self, Some e)
      | Some (Inr predicted') \<Rightarrow>
          Some (bookkeeping self (length (rows outputs)) predicted' targets))"

section \<open>The node inference adapter of hard routing\<close>

text \<open>
  Modelled from the spec: \<^verbatim>\<open>TreeSup.inference\<close> (\<^verbatim>\<open>models.trees\<close>) is
  not among the sources. A sample is applicable at a node iff its ground-truth
  class lies in one of the node's child groups; the selector has one entry per
  sample; the sub-batch holds the node-local scores of the applicable samples,
  in batch order. How a row of raw scores becomes node-local scores is left
  open by the spec and is the parameter \<open>node_logits\<close>.
\<close>

definition applicable :: "node \<Rightarrow> int \<Rightarrow> bool" where
  "applicable nd target =
     list_ex (\<lambda>new_label.
        case new_to_old_classes nd new_label of
          None \<Rightarrow> False
        | Some olds \<Rightarrow> list_ex (\<lambda>old. int old = target) olds)
      [0..<length (children nd)]"

definition local_target :: "node \<Rightarrow> int \<Rightarrow> int" where
  "local_target nd target =
     int (length (takeWhile (\<lambda>new_label.
        case new_to_old_classes nd new_label of
          None \<Rightarrow> True
        | Some olds \<Rightarrow> \<not> list_ex (\<lambda>old. int old = target) olds)
      [0..<length (children nd)]))"

definition TreeSup_inference :: "(node \<Rightarrow> 'a list \<Rightarrow> 'a list) \<Rightarrow> 'a inference_fn" where
  "TreeSup_inference node_logits nd outputs targets =
     (let selector = map (applicable nd) targets in
      if length selector \<noteq> length (rows outputs) then Inl IndexError
      else Inr (selector,
                \<lparr>size1 = num_classes nd,
                 rows = map (\<lambda>sr. node_logits nd (snd sr))
                            (filter fst (zip selector (rows outputs)))\<rparr>,
                map (local_target nd) (filter (applicable nd) targets)))"

section \<open>The hooks of \<^verbatim>\<open>Noop\<close> and their overrides\<close>

definition start_epoch :: "int \<Rightarrow> 'a noop_scheme \<Rightarrow> 'a noop_scheme" where
  "start_epoch e self = self\<lparr>epoch := Some e\<rparr>"

text \<open>\<^verbatim>\<open>assert epoch == self.epoch\<close>, the body of the five hooks below.\<close>

definition start_train :: "int \<Rightarrow> 'a noop_scheme \<Rightarrow> error + 'a noop_scheme" where
  "start_train e self = (if epoch self = Some e then Inr self else Inl AssertionError)"

definition end_train :: "int \<Rightarrow> 'a noop_scheme \<Rightarrow> error + 'a noop_scheme" where
  "end_train e self = (if epoch self = Some e then Inr self else Inl AssertionError)"

definition start_test :: "int \<Rightarrow> 'a noop_scheme \<Rightarrow> error + 'a noop_scheme" where
  "start_test e self = (if epoch self = Some e then Inr self else Inl AssertionError)"

definition end_test :: "int \<Rightarrow> 'a noop_scheme \<Rightarrow> error + 'a noop_scheme" where
  "end_test e self = (if epoch self = Some e then Inr self else Inl AssertionError)"

definition end_epoch :: "int \<Rightarrow> 'a noop_scheme \<Rightarrow> error + 'a noop_scheme" where
  "end_epoch e self = (if epoch self = Some e then Inr self else Inl AssertionError)"

text \<open>
  \<^verbatim>\<open>IgnoredSamples.start_test\<close>: \<^verbatim>\<open>super().start_test(epoch)\<close>, then
  \<^verbatim>\<open>self.ignored = 0\<close>.
\<close>

definition IgnoredSamples_start_test :: "int \<Rightarrow> ignored_samples \<Rightarrow> error + ignored_samples" where
  "IgnoredSamples_start_test e self =
     (case start_test e self of
        Inl err \<Rightarrow> Inl err
      | Inr self' \<Rightarrow> Inr (self'\<lparr>ignored := Some 0\<rparr>))"

text \<open>
  \<^verbatim>\<open>DecisionTreePrior.end_test\<close>: \<^verbatim>\<open>super().end_test(epoch)\<close>, then
  \<^verbatim>\<open>round(self.correct / self.total * 100., 2)\<close> and a print. The printed
  text is not modelled; the division raises on \<open>total = 0\<close>.
  \<^verbatim>\<open>DecisionTreePrior\<close> overrides no other start/end hook.
\<close>

definition DecisionTreePrior_end_test :: "int \<Rightarrow> tree_prior \<Rightarrow> error + tree_prior" where
  "DecisionTreePrior_end_test e self =
     (case end_test e self of
        Inl err \<Rightarrow> Inl err
      | Inr self' \<Rightarrow> (if total self' = 0 then Inl ZeroDivisionError else Inr self'))"

text \<open>
  \<^verbatim>\<open>DecisionTreeBayesianPrior.end_test\<close>: the same division and print,
  without the call of \<^verbatim>\<open>super().end_test(epoch)\<close>.
\<close>

definition Bayesian_end_test :: "int \<Rightarrow> tree_prior \<Rightarrow> error + tree_prior" where
  "Bayesian_end_test e self = (if total self = 0 then Inl ZeroDivisionError else Inr self)"

section \<open>Soft routing: \<^verbatim>\<open>DecisionTreeBayesianPrior\<close>\<close>

text \<open>
  \<^verbatim>\<open>outputs.T[idxs].mean(dim=0)\<close>: one mean per sample, over the columns
  \<open>idxs\<close>. An index beyond the columns raises once there is a sample to read.
\<close>

definition mean_columns :: "'a library \<Rightarrow> 'a tensor \<Rightarrow> nat list \<Rightarrow> error + 'a list" where
  "mean_columns L outputs idxs =
     (if rows outputs \<noteq> [] \<and> list_ex (\<lambda>i. size1 outputs \<le> i) idxs then Inl IndexError
      else Inr (map (\<lambda>r. torch_mean L (map (\<lambda>i. r ! i) idxs)) (rows outputs)))"

text \<open>The list comprehension \<^verbatim>\<open>for new_label in range(node.num_classes)\<close>.\<close>

fun class_means :: "'a library \<Rightarrow> node \<Rightarrow> 'a tensor \<Rightarrow> nat list \<Rightarrow> error + 'a list list" where
  "class_means L nd outputs [] = Inr []"
| "class_means L nd outputs (new_label # rest) =
     (case new_to_old_classes nd new_label of
        None \<Rightarrow> Inl KeyError
      | Some idxs \<Rightarrow>
          (case mean_columns L outputs idxs of
             Inl e \<Rightarrow> Inl e
           | Inr col \<Rightarrow>
               (case class_means L nd outputs rest of
                  Inl e \<Rightarrow> Inl e
                | Inr cols \<Rightarrow> Inr (col # cols))))"

text \<open>
  \<^verbatim>\<open>torch.stack([...]).T\<close>: stacking nothing raises; the transpose has one
  row per sample and one column per node-local class.
\<close>

definition node_outputs :: "'a library \<Rightarrow> node \<Rightarrow> 'a tensor \<Rightarrow> error + 'a tensor" where
  "node_outputs L nd outputs =
     (case class_means L nd outputs [0..<num_classes nd] of
        Inl e \<Rightarrow> Inl e
      | Inr cols \<Rightarrow>
          (if cols = [] then Inl RuntimeError
           else Inr \<lparr>size1 = length cols,
                     rows = map (\<lambda>i. map (\<lambda>col. col ! i) cols) [0..<length (rows outputs)]\<rparr>))"

text \<open>The \<^verbatim>\<open>for node in self.nodes\<close> loop that fills \<^verbatim>\<open>wnid_to_output\<close>.\<close>

fun outputs_by_wnid ::
  "'a library \<Rightarrow> node list \<Rightarrow> 'a tensor \<Rightarrow> (string \<rightharpoonup> 'a tensor)
     \<Rightarrow> error + (string \<rightharpoonup> 'a tensor)" where
  "outputs_by_wnid L [] outputs wnid_to_output = Inr wnid_to_output"
| "outputs_by_wnid L (nd # rest) outputs wnid_to_output =
     (case node_outputs L nd outputs of
        Inl e \<Rightarrow> Inl e
      | Inr t \<Rightarrow> outputs_by_wnid L rest outputs (wnid_to_output(wnid nd \<mapsto> t)))"

text \<open>\<^verbatim>\<open>self.softmax(output)\<close>, row by row.\<close>

definition softmax_dim1 :: "'a library \<Rightarrow> 'a tensor \<Rightarrow> 'a tensor" where
  "softmax_dim1 L t = t\<lparr>rows := map (torch_softmax L) (rows t)\<rparr>"

text \<open>
  \<^verbatim>\<open>class_probs[:,old_indexes] *= output[:,index_child:index_child+1]\<close> on a
  \<open>class_probs\<close> with \<open>k\<close> columns. The fancy index raises beyond \<open>k\<close>. The
  slice has one column, or none when \<open>index_child\<close> is beyond the columns of
  \<open>output\<close>; numpy broadcasts it to the selected block or raises. A column
  listed twice is multiplied once.
\<close>

definition scale_row :: "'a library \<Rightarrow> nat list \<Rightarrow> 'a \<Rightarrow> 'a list \<Rightarrow> 'a list" where
  "scale_row L old_indexes factor row =
     map (\<lambda>j. if j \<in> set old_indexes then np_mul L (row ! j) factor else row ! j)
         [0..<length row]"

definition imul_columns ::
  "'a library \<Rightarrow> nat \<Rightarrow> 'a list list \<Rightarrow> nat list \<Rightarrow> 'a tensor \<Rightarrow> nat
     \<Rightarrow> error + 'a list list" where
  "imul_columns L k class_probs old_indexes output index_child =
     (if list_ex (\<lambda>j. k \<le> j) old_indexes then Inl IndexError
      else if \<not> ((length (rows output) = length class_probs \<or> length (rows output) = 1)
                 \<and> (index_child < size1 output \<or> old_indexes = []))
      then Inl ValueError
      else Inr (map (\<lambda>i. scale_row L old_indexes
                            (rows output ! (if length (rows output) = 1 then 0 else i) ! index_child)
                            (class_probs ! i))
                    [0..<length class_probs]))"

text \<open>The loop \<^verbatim>\<open>for index_child in range(len(node.children))\<close>.\<close>

fun for_children ::
  "'a library \<Rightarrow> node \<Rightarrow> 'a tensor \<Rightarrow> nat \<Rightarrow> nat list \<Rightarrow> 'a list list
     \<Rightarrow> error + 'a list list" where
  "for_children L nd output k [] class_probs = Inr class_probs"
| "for_children L nd output k (index_child # rest) class_probs =
     (case new_to_old_classes nd index_child of
        None \<Rightarrow> Inl KeyError
      | Some old_indexes \<Rightarrow>
          (case imul_columns L k class_probs old_indexes output index_child of
             Inl e \<Rightarrow> Inl e
           | Inr class_probs' \<Rightarrow> for_children L nd output k rest class_probs'))"

text \<open>The loop \<^verbatim>\<open>for node in self.nodes\<close> of \<^verbatim>\<open>traverse_tree\<close>.\<close>

fun for_nodes ::
  "'a library \<Rightarrow> (string \<rightharpoonup> 'a tensor) \<Rightarrow> nat \<Rightarrow> node list \<Rightarrow> 'a list list
     \<Rightarrow> error + 'a list list" where
  "for_nodes L wnid_to_output k [] class_probs = Inr class_probs"
| "for_nodes L wnid_to_output k (nd # rest) class_probs =
     (case wnid_to_output (wnid nd) of
        None \<Rightarrow> Inl KeyError
      | Some output \<Rightarrow>
          (case for_children L nd (softmax_dim1 L output) k [0..<length (children nd)]
                  class_probs of
             Inl e \<Rightarrow> Inl e
           | Inr class_probs' \<Rightarrow> for_nodes L wnid_to_output k rest class_probs'))"

text \<open>
  \<^verbatim>\<open>DecisionTreeBayesianPrior.traverse_tree(self, _, wnid_to_output, n_samples)\<close>.
  \<^verbatim>\<open>np.argmax(class_probs, axis=1)\<close> raises when there is no class; the
  value returned is \<^verbatim>\<open>torch.Tensor(preds).long()\<close>.
\<close>

definition Bayesian_traverse_tree ::
  "'a library \<Rightarrow> tree_prior \<Rightarrow> int list \<Rightarrow> (string \<rightharpoonup> 'a tensor) \<Rightarrow> nat
     \<Rightarrow> error + int list" where
  "Bayesian_traverse_tree L self predicted wnid_to_output n_samples =
     (case for_nodes L wnid_to_output (length (classes self)) (nodes self)
             (replicate n_samples (replicate (length (classes self)) (np_one L))) of
        Inl e \<Rightarrow> Inl e
      | Inr class_probs \<Rightarrow>
          (if length (classes self) = 0 then Inl ValueError
           else Inr (map (\<lambda>row. float32_long (int (argmax L row))) class_probs)))"

text \<open>
  \<^verbatim>\<open>DecisionTreeBayesianPrior.update_batch\<close>. \<open>Bayesian_predicted\<close> is the
  value bound to \<^verbatim>\<open>predicted\<close> by the call of \<^verbatim>\<open>traverse_tree\<close>.
\<close>

definition Bayesian_predicted ::
  "'a library \<Rightarrow> tree_prior \<Rightarrow> 'a tensor \<Rightarrow> int list \<Rightarrow> error + int list" where
  "Bayesian_predicted L self outputs predicted =
     (case outputs_by_wnid L (nodes self) outputs Map.empty of
        Inl e \<Rightarrow> Inl e
      | Inr wnid_to_output \<Rightarrow>
          Bayesian_traverse_tree L self predicted wnid_to_output (length (rows outputs)))"

definition Bayesian_update_batch ::
  "'a library \<Rightarrow> tree_prior \<Rightarrow> 'a tensor \<Rightarrow> int list \<Rightarrow> int list
     \<Rightarrow> tree_prior \<times> error option" where
  "Bayesian_update_batch L self outputs predicted targets =
     (case Bayesian_predicted L self outputs predicted of
        Inl e \<Rightarrow> (self, Some e)
      | Inr predicted' \<Rightarrow> bookkeeping self (length (rows outputs)) predicted' targets)"

section \<open>Soft routing as the specification words it\<close>

text \<open>
  The specification describes soft routing one sample at a time. For a row of
  raw scores: the score of a node-local class is the mean of the raw scores of
  the original classes it owns; the class probabilities start at one and, for
  every node and every child, the entries owned by the child are multiplied by
  the softmax of the node's scores at that child; the prediction is the argmax.
  Mean, softmax, product and comparison are the library's.
\<close>

definition spec_class_mean :: "'a library \<Rightarrow> node \<Rightarrow> 'a list \<Rightarrow> nat \<Rightarrow> 'a" where
  "spec_class_mean L nd row new_label =
     torch_mean L (map (\<lambda>i. row ! i) (the (new_to_old_classes nd new_label)))"

definition spec_node_scores :: "'a library \<Rightarrow> node \<Rightarrow> 'a list \<Rightarrow> 'a list" where
  "spec_node_scores L nd row = map (spec_class_mean L nd row) [0..<num_classes nd]"

definition spec_multiply_child ::
  "'a library \<Rightarrow> node \<Rightarrow> 'a list \<Rightarrow> nat \<Rightarrow> 'a list \<Rightarrow> 'a list" where
  "spec_multiply_child L nd row index_child probs =
     map (\<lambda>j. if j \<in> set (the (new_to_old_classes nd index_child))
               then np_mul L (probs ! j)
                      (torch_softmax L (spec_node_scores L nd row) ! index_child)
               else probs ! j)
         [0..<length probs]"

definition spec_multiply_node :: "'a library \<Rightarrow> 'a list \<Rightarrow> node \<Rightarrow> 'a list \<Rightarrow> 'a list" where
  "spec_multiply_node L row nd probs =
     fold (spec_multiply_child L nd row) [0..<length (children nd)] probs"

definition spec_class_probs :: "'a library \<Rightarrow> node list \<Rightarrow> nat \<Rightarrow> 'a list \<Rightarrow> 'a list" where
  "spec_class_probs L nds k row = fold (spec_multiply_node L row) nds (replicate k (np_one L))"

definition spec_soft_prediction :: "'a library \<Rightarrow> node list \<Rightarrow> nat \<Rightarrow> 'a list \<Rightarrow> int" where
  "spec_soft_prediction L nds k row = int (argmax L (spec_class_probs L nds k row))"

text \<open>
  The hierarchies and batches on which no step of soft routing raises: node
  identifiers are distinct, there is a class, every node has a node-local class
  and at most as many children as node-local classes, and every node-local
  class owns columns of the batch that are original classes.
\<close>

definition soft_routable :: "tree_prior \<Rightarrow> 'a tensor \<Rightarrow> bool" where
  "soft_routable self outputs =
     (distinct (map wnid (nodes self)) \<and> classes self \<noteq> [] \<and>
      list_all (\<lambda>nd.
         0 < num_classes nd \<and> length (children nd) \<le> num_classes nd \<and>
         list_all (\<lambda>new_label.
            case new_to_old_classes nd new_label of
              None \<Rightarrow> False
            | Some idxs \<Rightarrow>
                list_all (\<lambda>i. i < size1 outputs \<and> i < length (classes self)) idxs)
          [0..<num_classes nd])
       (nodes self))"

text \<open>
  A hierarchy of one node that owns every original class directly: as many
  children and node-local classes as there are classes, the \<open>i\<close>-th group
  being \<open>[i]\<close>.
\<close>

definition single_node :: "tree_prior \<Rightarrow> node \<Rightarrow> bool" where
  "single_node self nd =
     (nodes self = [nd] \<and> classes self \<noteq> [] \<and>
      num_classes nd = length (classes self) \<and>
      length (children nd) = length (classes self) \<and>
      list_all (\<lambda>i. new_to_old_classes nd i = Some [i]) [0..<length (classes self)])"


text \<open>
  The library is exact on a row: the mean of a single score is that score, the
  softmax has one probability per score, and one times a probability is that
  probability.
\<close>

definition exact_on :: "'a library \<Rightarrow> 'a list \<Rightarrow> bool" where
  "exact_on L row =
     (list_all (\<lambda>x. torch_mean L [x] = x) row
      \<and> length (torch_softmax L row) = length row
      \<and> list_all (\<lambda>p. np_mul L (np_one L) p = p) (torch_softmax L row))"

section \<open>A model of the libraries' IEEE arithmetic\<close>

text \<open>
  For runs on concrete numbers the library is instantiated with a model of
  IEEE arithmetic. A value is a NaN or a finite float, given by the real number
  it denotes. Every operation gives the float nearest to its exact result,
  ties to even: \<open>rnd p emin\<close> rounds to \<open>p\<close> significant bits with least
  exponent \<open>emin\<close> (gradual underflow). Scores are float32, class probabilities
  float64. Infinities, and so results beyond the largest float, are outside
  the model. For \<open>exp\<close> and for the order of a sum the nearest float is an
  idealisation of the library; the example rows below are chosen so that no
  result depends on the last bit.
\<close>

datatype fp = NaN | Fin real

definition rne :: "real \<Rightarrow> int" where
  "rne x =
     (if x - of_int \<lfloor>x\<rfloor> < 1 / 2 then \<lfloor>x\<rfloor>
      else if 1 / 2 < x - of_int \<lfloor>x\<rfloor> then \<lfloor>x\<rfloor> + 1
      else if even \<lfloor>x\<rfloor> then \<lfloor>x\<rfloor> else \<lfloor>x\<rfloor> + 1)"

definition rnd :: "nat \<Rightarrow> int \<Rightarrow> real \<Rightarrow> real" where
  "rnd p emin x =
     (if x = 0 then 0
      else 2 powr of_int (max \<lfloor>log 2 \<bar>x\<bar>\<rfloor> emin - int p + 1)
             * of_int (rne (x / 2 powr of_int (max \<lfloor>log 2 \<bar>x\<bar>\<rfloor> emin - int p + 1))))"

definition round32 :: "real \<Rightarrow> real" where
  "round32 = rnd 24 (- 126)"

definition round64 :: "real \<Rightarrow> real" where
  "round64 = rnd 53 (- 1022)"

text \<open>A float32 sum, accumulated from the left.\<close>

definition sum32 :: "real list \<Rightarrow> real" where
  "sum32 xs = foldl (\<lambda>a x. round32 (a + x)) 0 xs"

text \<open>
  Softmax of a row of finite float32 scores, the way it is computed to avoid
  overflow: \<open>exp (x - max) / sum\<close>.
\<close>

definition softmax32 :: "real list \<Rightarrow> real list" where
  "softmax32 xs =
     map (\<lambda>x. round32 (round32 (exp (round32 (x - Max (set xs))))
                 / sum32 (map (\<lambda>y. round32 (exp (round32 (y - Max (set xs))))) xs)))
         xs"

fun fp_isnan :: "fp \<Rightarrow> bool" where
  "fp_isnan NaN = True"
| "fp_isnan (Fin x) = False"

fun fp_val :: "fp \<Rightarrow> real" where
  "fp_val (Fin x) = x"
| "fp_val NaN = 0"

fun fp_le :: "fp \<Rightarrow> fp \<Rightarrow> bool" where
  "fp_le (Fin x) (Fin y) = (x \<le> y)"
| "fp_le NaN y = False"
| "fp_le x NaN = False"

fun fp_mul :: "fp \<Rightarrow> fp \<Rightarrow> fp" where
  "fp_mul (Fin x) (Fin y) = Fin (round64 (x * y))"
| "fp_mul NaN y = NaN"
| "fp_mul x NaN = NaN"

definition fp_mean :: "fp list \<Rightarrow> fp" where
  "fp_mean xs =
     (if xs = [] \<or> list_ex fp_isnan xs then NaN
      else Fin (round32 (sum32 (map fp_val xs) / real (length xs))))"

definition fp_softmax :: "fp list \<Rightarrow> fp list" where
  "fp_softmax xs =
     (if list_ex fp_isnan xs then map (\<lambda>x. NaN) xs
      else map Fin (softmax32 (map fp_val xs)))"

definition ieee :: "fp library" where
  "ieee = \<lparr>torch_mean = fp_mean, torch_softmax = fp_softmax, np_one = Fin 1,
           np_mul = fp_mul, float_le = fp_le, float_isnan = fp_isnan\<rparr>"

section \<open>Example hierarchies\<close>

text \<open>
  Two levels over four classes: the root splits \<open>{0, 1}\<close> from \<open>{2, 3}\<close>, and
  each of the two inner nodes resolves one of two classes.
\<close>

definition ex_root :: node where
  "ex_root = \<lparr>wnid = ''n6'', children = [''n4'', ''n5''], num_classes = 2,
              new_to_old_classes = [0 \<mapsto> [0, 1], 1 \<mapsto> [2, 3]]\<rparr>"

definition ex_animal :: node where
  "ex_animal = \<lparr>wnid = ''n4'', children = [''n0'', ''n1''], num_classes = 2,
                new_to_old_classes = [0 \<mapsto> [0], 1 \<mapsto> [1]]\<rparr>"

definition ex_vehicle :: node where
  "ex_vehicle = \<lparr>wnid = ''n5'', children = [''n2'', ''n3''], num_classes = 2,
                 new_to_old_classes = [0 \<mapsto> [2], 1 \<mapsto> [3]]\<rparr>"

definition ex_prior :: tree_prior where
  "ex_prior = \<lparr>epoch = None, nodes = [ex_root, ex_animal, ex_vehicle], wnid_root = ''n6'',
               wnids = [''n0'', ''n1'', ''n2'', ''n3''],
               classes = [''cat'', ''dog'', ''car'', ''bus''], correct = 0, total = 0\<rparr>"

text \<open>
  Decision data of a batch of two samples with targets \<open>2\<close> and \<open>0\<close>: the root
  sends both to the second child; the first sample is then resolved to the
  first class of that child, the second is not applicable there.
\<close>

definition ex_selectors :: "string \<rightharpoonup> int list \<times> bool list" where
  "ex_selectors = [''n6'' \<mapsto> ([1, 1], [True, True]),
                   ''n4'' \<mapsto> ([0], [False, True]),
                   ''n5'' \<mapsto> ([0], [True, False])]"

definition ex_rank :: "node \<Rightarrow> nat" where
  "ex_rank nd = (if wnid nd = ''n6'' then 1 else 0)"

text \<open>
  The hierarchy is acyclic: every child link leads from rank \<open>1\<close> to rank \<open>0\<close>.
\<close>

definition ex_acyclic :: bool where
  "ex_acyclic =
     list_all (\<lambda>p. list_all (\<lambda>c.
         case wnid_to_node ex_prior c of
           None \<Rightarrow> True
         | Some q \<Rightarrow> q \<in> set (nodes ex_prior) \<and> ex_rank q < ex_rank p)
       (children p)) (nodes ex_prior)"

definition ex_outputs :: "fp tensor" where
  "ex_outputs = \<lparr>size1 = 4, rows = [[Fin 0, Fin 0, Fin 5, Fin 0], [Fin 3, Fin 1, Fin 0, Fin 0]]\<rparr>"

text \<open>A node that is its own child, with decision data that follow the link.\<close>

definition ex_cyclic_node :: node where
  "ex_cyclic_node = \<lparr>wnid = ''n0'', children = [''n0''], num_classes = 1,
                     new_to_old_classes = [0 \<mapsto> [0]]\<rparr>"

definition ex_cyclic :: tree_prior where
  "ex_cyclic = \<lparr>epoch = None, nodes = [ex_cyclic_node], wnid_root = ''n0'',
                wnids = [''n0''], classes = [''cat''], correct = 0, total = 0\<rparr>"

text \<open>One node over three classes, and three batches for it.\<close>

definition ex_flat_node :: node where
  "ex_flat_node = \<lparr>wnid = ''n3'', children = [''n0'', ''n1'', ''n2''], num_classes = 3,
                   new_to_old_classes = [0 \<mapsto> [0], 1 \<mapsto> [1], 2 \<mapsto> [2]]\<rparr>"

definition ex_flat :: tree_prior where
  "ex_flat = \<lparr>epoch = None, nodes = [ex_flat_node], wnid_root = ''n3'',
              wnids = [''n0'', ''n1'', ''n2''],
              classes = [''cat'', ''dog'', ''car''], correct = 0, total = 0\<rparr>"

definition ex_flat_outputs :: "fp tensor" where
  "ex_flat_outputs = \<lparr>size1 = 3, rows = [[Fin 1, Fin 3, Fin 2], [Fin 4, Fin 0, Fin 0]]\<rparr>"

definition ex_sharp_outputs :: "fp tensor" where
  "ex_sharp_outputs = \<lparr>size1 = 3, rows = [[Fin 0, Fin 200, Fin 0], [Fin 200, Fin 0, Fin 0]]\<rparr>"

definition ex_close_outputs :: "fp tensor" where
  "ex_close_outputs = \<lparr>size1 = 3, rows = [[Fin 0, Fin (1 / 2 ^ 30), Fin 0]]\<rparr>"

text \<open>
  Hierarchies over \<open>n + 1\<close> classes with distinct names. In \<open>wide_prior n\<close>
  the one node splits the first \<open>n\<close> classes from the last; in
  \<open>leafy_prior n\<close> the children of the one node are the first and the last
  class themselves.
\<close>

definition class_name :: "nat \<Rightarrow> string" where
  "class_name i = CHR ''c'' # replicate i CHR ''x''"

definition wnid_name :: "nat \<Rightarrow> string" where
  "wnid_name i = CHR ''n'' # replicate i CHR ''x''"

definition wide_node :: "nat \<Rightarrow> node" where
  "wide_node n = \<lparr>wnid = ''r'', children = [''a'', ''b''], num_classes = 2,
                  new_to_old_classes = [0 \<mapsto> [0..<n], 1 \<mapsto> [n]]\<rparr>"

definition wide_prior :: "nat \<Rightarrow> tree_prior" where
  "wide_prior n = \<lparr>epoch = None, nodes = [wide_node n], wnid_root = ''r'',
                   wnids = map wnid_name [0..<Suc n], classes = map class_name [0..<Suc n],
                   correct = 0, total = 0\<rparr>"

definition wide_outputs :: "nat \<Rightarrow> fp tensor" where
  "wide_outputs n = \<lparr>size1 = Suc n, rows = [replicate n (Fin 0) @ [Fin 200]]\<rparr>"

definition leafy_node :: "nat \<Rightarrow> node" where
  "leafy_node n = \<lparr>wnid = ''r'', children = [wnid_name 0, wnid_name n], num_classes = 2,
                   new_to_old_classes = [0 \<mapsto> [0], 1 \<mapsto> [n]]\<rparr>"

definition leafy_prior :: "nat \<Rightarrow> tree_prior" where
  "leafy_prior n = \<lparr>epoch = None, nodes = [leafy_node n], wnid_root = ''r'',
                    wnids = map wnid_name [0..<Suc n], classes = map class_name [0..<Suc n],
                    correct = 0, total = 0\<rparr>"

section \<open>Hard routing: list primitives, the lock-step position, termination, decision data\<close>

lemma getitem_cases:
  "getitem xs i = Inl IndexError \<or> (\<exists>x\<in>set xs. getitem xs i = Inr x)"
proof -
  have a: "nat i < length xs" if "0 \<le> i \<and> i < int (length xs)"
    using that by (simp add: nat_less_iff)
  have b: "nat (int (length xs) + i) < length xs" if "i < 0 \<and> - int (length xs) \<le> i"
    using that by (simp add: nat_less_iff)
  show ?thesis unfolding getitem_def using nth_mem[OF a] nth_mem[OF b] by auto
qed

lemma list_index_first:
  "list_index xs x = Some i \<Longrightarrow> i < length xs \<and> xs ! i = x \<and> (\<forall>j<i. xs ! j \<noteq> x)"
proof (induction xs arbitrary: i)
  case Nil then show ?case by simp
next
  case (Cons y ys)
  show ?case
  proof (cases "y = x")
    case True with Cons.prems show ?thesis by simp
  next
    case False
    with Cons.prems obtain k where k: "list_index ys x = Some k" "i = Suc k" by auto
    from Cons.IH[OF k(1)] False k(2) show ?thesis by (auto simp: nth_Cons split: nat.splits)
  qed
qed

lemma nth_filter_zip_selected:
  assumes "length ps = length selector" "index < length selector" "selector ! index"
  shows "map snd (filter fst (zip selector ps)) ! (length (filter id (take (Suc index) selector)) - 1) = ps ! index"
    and "length (filter id (take (Suc index) selector)) - 1 < length (map snd (filter fst (zip selector ps)))"
    and "0 < length (filter id (take (Suc index) selector))"
proof -
  let ?zs = "zip selector ps"
  have len: "index < length ?zs" using assms by simp
  have split: "?zs = take index ?zs @ (?zs ! index) # drop (Suc index) ?zs"
    using len by (rule id_take_nth_drop)
  have zi: "?zs ! index = (True, ps ! index)" using assms by simp
  have cnt: "length (filter id (take k selector)) = length (filter fst (take k ?zs))" for k
  proof -
    have "map fst (take k ?zs) = take k selector" using assms by (simp add: take_map[symmetric])
    then have "filter id (take k selector) = filter id (map fst (take k ?zs))" by simp
    also have "\<dots> = map fst (filter fst (take k ?zs))" by (simp add: filter_map comp_def)
    finally show ?thesis by simp
  qed
  have c1: "length (filter id (take (Suc index) selector)) = Suc (length (filter fst (take index ?zs)))"
    using len zi by (simp add: cnt take_Suc_conv_app_nth)
  have f: "filter fst ?zs = filter fst (take index ?zs) @ (True, ps ! index) # filter fst (drop (Suc index) ?zs)"
    by (subst split) (simp add: zi)
  show "map snd (filter fst (zip selector ps)) ! (length (filter id (take (Suc index) selector)) - 1) = ps ! index"
    unfolding c1 by (subst f) (simp add: nth_append)
  show "length (filter id (take (Suc index) selector)) - 1 < length (map snd (filter fst (zip selector ps)))"
    unfolding c1 by (subst f) simp
  show "0 < length (filter id (take (Suc index) selector))" unfolding c1 by simp
qed

lemma count_true_card:
  "length (filter id (take (Suc index) selector)) = card {j. j \<le> index \<and> j < length selector \<and> selector ! j}"
proof -
  have "{j. j < length (take (Suc index) selector) \<and> id (take (Suc index) selector ! j)}
      = {j. j \<le> index \<and> j < length selector \<and> selector ! j}"
    by auto
  then show ?thesis by (simp only: length_filter_conv_card)
qed

lemma index_new_in_range:
  assumes "index < length sel" "sel ! index"
  shows "0 \<le> index_new sel index" "index_new sel index < int (length (filter id sel))"
proof -
  have "sel ! index \<in> set (filter id (take (Suc index) sel))"
    using assms by (simp add: take_Suc_conv_app_nth)
  then have "0 < length (filter id (take (Suc index) sel))" by (simp add: filter_empty_conv; blast)
  then show "0 \<le> index_new sel index" by (simp add: index_new_def)
  have "length (filter id (take (Suc index) sel)) \<le> length (filter id sel)"
  proof -
    have "filter id sel = filter id (take (Suc index) sel) @ filter id (drop (Suc index) sel)"
      by (simp only: filter_append[symmetric] append_take_drop_id)
    then show ?thesis by simp
  qed
  moreover have "0 < length (filter id (take (Suc index) sel))" by fact
  ultimately show "index_new sel index < int (length (filter id sel))"
    by (simp add: index_new_def)
qed

lemma length_filter_zip_fst:
  "length sel = length xs \<Longrightarrow> length (filter fst (zip sel xs)) = length (filter id sel)"
proof -
  assume "length sel = length xs"
  then have "map fst (zip sel xs) = sel" by simp
  then have "filter id sel = filter id (map fst (zip sel xs))" by simp
  also have "\<dots> = map fst (filter fst (zip sel xs))" by (simp add: filter_map comp_def)
  finally show ?thesis by simp
qed

text \<open>
  Claim C3. In hard routing, for a sample whose selector entry at a node is
  true, the position used to read its node-local prediction is the number of
  true selector entries at batch indices up to and including its own, minus
  one. When the local predictions are those of the applicable samples, in
  batch order (here: the applicable entries of a list \<open>ps\<close> with one
  prediction per sample), that position holds the prediction of the sample.
\<close>

theorem lock_step_index:
  assumes "length ps = length selector" "index < length selector" "selector ! index"
  shows "index_new selector index
           = int (card {j. j \<le> index \<and> j < length selector \<and> selector ! j}) - 1
       \<and> getitem (map snd (filter fst (zip selector ps))) (index_new selector index) = Inr (ps ! index)"
proof -
  note h = nth_filter_zip_selected[OF assms]
  let ?k = "length (filter id (take (Suc index) selector))"
  have "1 \<le> ?k" using Suc_leI[OF h(3)] by (simp only: One_nat_def)
  then have i: "index_new selector index = int (?k - 1)"
    unfolding index_new_def by (simp only: of_nat_diff Suc_eq_plus1 of_nat_1)
  have a: "index_new selector index
             = int (card {j. j \<le> index \<and> j < length selector \<and> selector ! j}) - 1"
    unfolding count_true_card[symmetric] by (simp add: index_new_def)
  have b: "getitem (map snd (filter fst (zip selector ps))) (int (?k - 1)) = Inr (ps ! index)"
    using h(1,2) by (simp add: getitem_def)
  show ?thesis using a b i by simp
qed

theorem lock_step_index_witness:
  "index_new [True, False, True] 2 = 1
   \<and> getitem (map snd (filter fst (zip [True, False, True] [5, 7, 9 :: int]))) (index_new [True, False, True] 2) = Inr 9"
  using lock_step_index[of "[5, 7, 9 :: int]" "[True, False, True]" 2]
  by (simp add: index_new_def)

lemma wnid_to_class_index:
  assumes "wnid_to_class self w = Some cls"
  shows "\<exists>i. list_index (classes self) cls = Some i \<and> i < length (classes self) \<and> classes self ! i = cls"
proof -
  have "(w, cls) \<in> set (zip (wnids self) (classes self))"
    using assms map_of_SomeD[of "rev (zip (wnids self) (classes self))" w cls]
    by (simp add: wnid_to_class_def)
  then have mem: "cls \<in> set (classes self)" by (rule set_zip_rightD)
  have "x \<in> set xs \<Longrightarrow> \<exists>i. list_index xs x = Some i \<and> i < length xs \<and> xs ! i = x" for x :: string and xs
    by (induction xs) auto
  from this[OF mem] show ?thesis .
qed

lemma walk_no_entry:
  "w2ps (wnid nd) = None \<Longrightarrow> walk self w2ps index nd = Some (Inr None)"
  by (subst walk.simps) simp

lemma walk_not_selected:
  "w2ps (wnid nd) = Some (pred_sub, selector) \<Longrightarrow> index < length selector \<Longrightarrow> \<not> selector ! index
     \<Longrightarrow> walk self w2ps index nd = Some (Inr None)"
  by (subst walk.simps) simp

lemma walk_step:
  "w2ps (wnid nd) = Some (pred_sub, selector) \<Longrightarrow> index < length selector \<Longrightarrow> selector ! index
     \<Longrightarrow> getitem pred_sub (index_new selector index) = Inr index_child
     \<Longrightarrow> getitem (children nd) index_child = Inr w
     \<Longrightarrow> walk self w2ps index nd =
           (case wnid_to_node self w of None \<Rightarrow> Some (Inr (Some w)) | Some nd' \<Rightarrow> walk self w2ps index nd')"
  by (subst walk.simps) simp

lemma for_samples_Inr:
  "for_samples body is = Some (Inr preds) \<Longrightarrow>
     length preds = length is \<and> (\<forall>j<length is. body (is ! j) = Some (Inr (preds ! j)))"
proof (induction "is" arbitrary: preds)
  case Nil then show ?case by simp
next
  case (Cons i "is")
  from Cons.prems obtain p ps where p: "body i = Some (Inr p)" "for_samples body is = Some (Inr ps)" "preds = p # ps"
    by (auto split: option.splits sum.splits)
  from Cons.IH[OF p(2)] p(1,3) show ?case by (auto simp: nth_Cons split: nat.splits)
qed

lemma ex_lookups:
  "wnid_to_node ex_prior ''n6'' = Some ex_root"
  "wnid_to_node ex_prior ''n4'' = Some ex_animal"
  "wnid_to_node ex_prior ''n5'' = Some ex_vehicle"
  "wnid_to_node ex_prior ''n0'' = None"
  "wnid_to_node ex_prior ''n1'' = None"
  "wnid_to_node ex_prior ''n2'' = None"
  "wnid_to_node ex_prior ''n3'' = None"
  by (simp_all add: wnid_to_node_def ex_prior_def ex_root_def ex_animal_def ex_vehicle_def)

lemma walk_terminates:
  assumes closed: "\<forall>p\<in>S. \<forall>c\<in>set (children p). \<forall>q. wnid_to_node self c = Some q \<longrightarrow> q \<in> S \<and> rank q < (rank p :: nat)"
  shows "nd \<in> S \<Longrightarrow>
    \<exists>r. walk self w2ps index nd = Some r \<and>
      (case r of Inl e \<Rightarrow> e = IndexError
               | Inr None \<Rightarrow> True
               | Inr (Some w) \<Rightarrow> wnid_to_node self w = None)"
proof (induction "rank nd" arbitrary: nd rule: less_induct)
  case less
  show ?case
  proof (cases "w2ps (wnid nd)")
    case None
    then show ?thesis by (subst walk.simps) simp
  next
    case (Some ps)
    show ?thesis
    proof (cases "length (snd ps) \<le> index \<or> \<not> snd ps ! index")
      case True
      with Some show ?thesis by (subst walk.simps) auto
    next
      case False
      note sel = this
      from getitem_cases[of "fst ps" "index_new (snd ps) index"]
      show ?thesis
      proof
        assume "getitem (fst ps) (index_new (snd ps) index) = Inl IndexError"
        with Some sel show ?thesis by (subst walk.simps) auto
      next
        assume "\<exists>x\<in>set (fst ps). getitem (fst ps) (index_new (snd ps) index) = Inr x"
        then obtain ic where ic: "getitem (fst ps) (index_new (snd ps) index) = Inr ic" by blast
        from getitem_cases[of "children nd" ic]
        show ?thesis
        proof
          assume "getitem (children nd) ic = Inl IndexError"
          with Some sel ic show ?thesis by (subst walk.simps) auto
        next
          assume "\<exists>x\<in>set (children nd). getitem (children nd) ic = Inr x"
          then obtain w where w: "w \<in> set (children nd)" "getitem (children nd) ic = Inr w" by blast
          show ?thesis
          proof (cases "wnid_to_node self w")
            case None
            with Some sel ic w show ?thesis by (subst walk.simps) auto
          next
            case (Some nd')
            with closed less.prems w(1) have "nd' \<in> S" "rank nd' < rank nd" by blast+
            from less.hyps[OF this(2) this(1)]
            have ih: "\<exists>r. walk self w2ps index nd' = Some r \<and>
              (case r of Inl e \<Rightarrow> e = IndexError | Inr None \<Rightarrow> True
                | Inr (Some w) \<Rightarrow> wnid_to_node self w = None)" .
            have "walk self w2ps index nd = walk self w2ps index nd'"
              using \<open>w2ps (wnid nd) = Some ps\<close> sel ic w(2) Some by (subst walk.simps) auto
            with ih show ?thesis by simp
          qed
        qed
      qed
    qed
  qed
qed

lemma walk_resolves:
  assumes closed: "\<forall>p\<in>S. \<forall>c\<in>set (children p). \<forall>q. wnid_to_node self c = Some q \<longrightarrow> q \<in> S \<and> rank q < (rank p :: nat)"
      and data: "\<forall>p\<in>S. \<forall>ps sel. w2ps (wnid p) = Some (ps, sel) \<longrightarrow>
                   index < length sel \<and> length ps = length (filter id sel)
                   \<and> (\<forall>ic\<in>set ps. 0 \<le> ic \<and> ic < int (length (children p)))"
  shows "nd \<in> S \<Longrightarrow>
    \<exists>w. walk self w2ps index nd = Some (Inr w) \<and>
      (case w of None \<Rightarrow> True | Some x \<Rightarrow> wnid_to_node self x = None)"
proof (induction "rank nd" arbitrary: nd rule: less_induct)
  case less
  show ?case
  proof (cases "w2ps (wnid nd)")
    case None
    then show ?thesis by (subst walk.simps) simp
  next
    case (Some e)
    obtain ps sel where e: "e = (ps, sel)" by (cases e)
    from data less.prems Some e have d: "index < length sel" "length ps = length (filter id sel)"
      "\<forall>ic\<in>set ps. 0 \<le> ic \<and> ic < int (length (children nd))" by blast+
    show ?thesis
    proof (cases "sel ! index")
      case False
      with Some e d(1) show ?thesis by (subst walk.simps) simp
    next
      case True
      from index_new_in_range[OF d(1) True] d(2)
      have r: "0 \<le> index_new sel index" "index_new sel index < int (length ps)" by simp_all
      let ?ic = "ps ! nat (index_new sel index)"
      have g1: "getitem ps (index_new sel index) = Inr ?ic" using r by (simp add: getitem_def)
      have "?ic \<in> set ps" using r by (intro nth_mem) (simp add: nat_less_iff)
      with d(3) have ic: "0 \<le> ?ic" "?ic < int (length (children nd))" by blast+
      let ?w = "children nd ! nat ?ic"
      have g2: "getitem (children nd) ?ic = Inr ?w" using ic by (simp add: getitem_def)
      have wmem: "?w \<in> set (children nd)" using ic by (intro nth_mem) (simp add: nat_less_iff)
      have step: "walk self w2ps index nd =
          (case wnid_to_node self ?w of None \<Rightarrow> Some (Inr (Some ?w))
           | Some nd' \<Rightarrow> walk self w2ps index nd')"
        using Some e d(1) True g1 g2 by (subst walk.simps) simp
      show ?thesis
      proof (cases "wnid_to_node self ?w")
        case None
        with step show ?thesis by simp
      next
        case (Some nd')
        with closed less.prems wmem have "nd' \<in> S" "rank nd' < rank nd" by blast+
        from less.hyps[OF this(2) this(1)] step Some show ?thesis by simp
      qed
    qed
  qed
qed

lemma for_samples_total:
  "(\<forall>i\<in>set is. body i \<noteq> None) \<Longrightarrow> for_samples body is \<noteq> None"
  by (induction "is") (auto split: option.splits sum.splits)

lemma walk_cycle_aux:
  assumes "walk self w2ps index nd = Some r"
  shows "\<not> (self = ex_cyclic \<and> w2ps = [''n0'' \<mapsto> ([0], [True])] \<and> index = 0
            \<and> nd = ex_cyclic_node)"
  using assms
proof (induction self w2ps index nd r rule: walk.raw_induct[rotated, consumes 1, case_names step])
  case (step walk' self w2ps index nd r)
  show ?case
  proof
    assume a: "self = ex_cyclic \<and> w2ps = [''n0'' \<mapsto> ([0], [True])] \<and> index = 0
                 \<and> nd = ex_cyclic_node"
    have l: "wnid_to_node ex_cyclic ''n0'' = Some ex_cyclic_node"
      by (simp add: wnid_to_node_def ex_cyclic_def ex_cyclic_node_def)
    from step(2) a l have "walk' ex_cyclic [''n0'' \<mapsto> ([0], [True])] 0 ex_cyclic_node = Some r"
      by (simp add: ex_cyclic_node_def index_new_def getitem_def)
    from step(1)[OF this] show False by simp
  qed
qed

lemma walk_cycle:
  "walk ex_cyclic [''n0'' \<mapsto> ([0], [True])] 0 ex_cyclic_node = None"
proof (cases "walk ex_cyclic [''n0'' \<mapsto> ([0], [True])] 0 ex_cyclic_node")
  case None
  then show ?thesis .
next
  case (Some r)
  from walk_cycle_aux[OF Some] show ?thesis by simp
qed

text \<open>
  Claim C8. The results of \<^verbatim>\<open>DecisionTreePrior.traverse_tree\<close>, and the
  object \<^verbatim>\<open>update_batch\<close> leaves behind (its counters included), are the
  same for any two values of the argument \<^verbatim>\<open>predicted\<close>.
\<close>

theorem predicted_unused:
  "traverse_tree self predicted w2ps n_samples = traverse_tree self predicted' w2ps n_samples
   \<and> update_batch L inference self outputs predicted targets
       = update_batch L inference self outputs predicted' targets"
  unfolding update_batch_def hard_predicted_def traverse_tree_def by simp

lemma pred_selectors_entries:
  assumes "pred_selectors L (TreeSup_inference nl) nds outputs targets m = Inr w2ps"
  shows "w2ps w = m w \<or>
         (\<exists>nd\<in>set nds. wnid nd = w \<and> list_ex id (map (applicable nd) targets)
            \<and> length targets = length (rows outputs)
            \<and> w2ps w = Some (map (\<lambda>sr. int (argmax L (nl nd (snd sr))))
                                 (filter fst (zip (map (applicable nd) targets) (rows outputs))),
                             map (applicable nd) targets))"
  using assms
proof (induction nds arbitrary: m)
  case Nil
  then show ?case by simp
next
  case (Cons nd nds)
  let ?sel = "map (applicable nd) targets"
  let ?sub = "\<lparr>size1 = num_classes nd,
               rows = map (\<lambda>sr. nl nd (snd sr)) (filter fst (zip ?sel (rows outputs)))\<rparr>"
  have len: "length targets = length (rows outputs)"
    using Cons.prems by (auto simp: TreeSup_inference_def Let_def split: if_splits)
  then have inf: "TreeSup_inference nl nd outputs targets
                    = Inr (?sel, ?sub, map (local_target nd) (filter (applicable nd) targets))"
    by (simp add: TreeSup_inference_def Let_def)
  show ?case
  proof (cases "list_ex id ?sel")
    case False
    with Cons.prems inf have "pred_selectors L (TreeSup_inference nl) nds outputs targets m = Inr w2ps"
      by simp
    from Cons.IH[OF this] show ?thesis
    proof
      assume "w2ps w = m w" then show ?thesis by simp
    next
      assume "\<exists>nd\<in>set nds. wnid nd = w \<and> list_ex id (map (applicable nd) targets)
            \<and> length targets = length (rows outputs)
            \<and> w2ps w = Some (map (\<lambda>sr. int (argmax L (nl nd (snd sr))))
                                 (filter fst (zip (map (applicable nd) targets) (rows outputs))),
                             map (applicable nd) targets)"
      then obtain nd' where "nd' \<in> set nds" "wnid nd' = w"
          "list_ex id (map (applicable nd') targets)" "length targets = length (rows outputs)"
          "w2ps w = Some (map (\<lambda>sr. int (argmax L (nl nd' (snd sr))))
                                 (filter fst (zip (map (applicable nd') targets) (rows outputs))),
                             map (applicable nd') targets)"
        by blast
      then show ?thesis by (intro disjI2 bexI[of _ nd']) (simp_all add: list_ex_iff)
    qed
  next
    case True
    let ?preds = "map (\<lambda>r. int (argmax L r)) (rows ?sub)"
    from Cons.prems inf True have nz: "size1 ?sub \<noteq> 0"
      by (auto simp: max_dim1_def split: if_splits)
    then have md: "max_dim1 L ?sub = Inr ?preds" by (simp add: max_dim1_def)
    from Cons.prems inf True md
    have "pred_selectors L (TreeSup_inference nl) nds outputs targets (m(wnid nd \<mapsto> (?preds, ?sel)))
            = Inr w2ps"
      by simp
    from Cons.IH[OF this]
    show ?thesis
    proof
      assume a: "w2ps w = (m(wnid nd \<mapsto> (?preds, ?sel))) w"
      show ?thesis
      proof (cases "w = wnid nd")
        case True
        with a have "w2ps w = Some (map (\<lambda>sr. int (argmax L (nl nd (snd sr))))
                                 (filter fst (zip ?sel (rows outputs))), ?sel)"
          by (simp add: comp_def)
        with True \<open>list_ex id ?sel\<close> len show ?thesis
          by (intro disjI2 bexI[of _ nd]) (simp_all add: list_ex_iff)
      next
        case False
        with a show ?thesis by simp
      qed
    next
      assume "\<exists>nd\<in>set nds. wnid nd = w \<and> list_ex id (map (applicable nd) targets)
            \<and> length targets = length (rows outputs)
            \<and> w2ps w = Some (map (\<lambda>sr. int (argmax L (nl nd (snd sr))))
                                 (filter fst (zip (map (applicable nd) targets) (rows outputs))),
                             map (applicable nd) targets)"
      then obtain nd' where "nd' \<in> set nds" "wnid nd' = w"
          "list_ex id (map (applicable nd') targets)" "length targets = length (rows outputs)"
          "w2ps w = Some (map (\<lambda>sr. int (argmax L (nl nd' (snd sr))))
                                 (filter fst (zip (map (applicable nd') targets) (rows outputs))),
                             map (applicable nd') targets)"
        by blast
      then show ?thesis by (intro disjI2 bexI[of _ nd']) (simp_all add: list_ex_iff)
    qed
  qed
qed

text \<open>
  Claim C7. In the \<^verbatim>\<open>wnid_to_pred_selector\<close> that
  \<^verbatim>\<open>DecisionTreePrior.update_batch\<close> builds, every entry has a selector as
  long as the batch, as many local predictions as the selector has true
  entries, and at least one true entry; a node whose selector has no true
  entry (and that shares its wnid with no node that has one) gets no entry.
  The node inference adapter is the one modelled from the specification.
\<close>

theorem decision_data_shape:
  assumes "pred_selectors L (TreeSup_inference node_logits) nds outputs targets Map.empty = Inr w2ps"
  shows "(\<forall>w preds_sub selector. w2ps w = Some (preds_sub, selector) \<longrightarrow>
            length selector = length (rows outputs)
          \<and> length preds_sub = length (filter id selector)
          \<and> list_ex id selector)
       \<and> (\<forall>nd\<in>set nds.
            (\<forall>nd'\<in>set nds. wnid nd' = wnid nd \<longrightarrow> \<not> list_ex id (map (applicable nd') targets))
              \<longrightarrow> w2ps (wnid nd) = None)"
proof (intro conjI allI impI ballI)
  fix w preds_sub selector
  assume e: "w2ps w = Some (preds_sub, selector)"
  from pred_selectors_entries[OF assms, of w] e
  obtain nd where nd: "list_ex id (map (applicable nd) targets)"
      "length targets = length (rows outputs)"
      "preds_sub = map (\<lambda>sr. int (argmax L (node_logits nd (snd sr))))
                       (filter fst (zip (map (applicable nd) targets) (rows outputs)))"
      "selector = map (applicable nd) targets"
    by auto
  show "length selector = length (rows outputs)" using nd(2,4) by simp
  show "length preds_sub = length (filter id selector)"
    using nd(2) by (simp add: nd(3,4) length_filter_zip_fst)
  show "list_ex id selector" using nd(1,4) by simp
next
  fix nd
  assume "nd \<in> set nds"
    and "\<forall>nd'\<in>set nds. wnid nd' = wnid nd \<longrightarrow> \<not> list_ex id (map (applicable nd') targets)"
  with pred_selectors_entries[OF assms, of "wnid nd"]
  show "w2ps (wnid nd) = None" by auto
qed

section \<open>Soft routing: the code computes what the specification words\<close>

lemma mean_columns_ok:
  assumes "list_all (\<lambda>i. i < size1 outputs) idxs"
  shows "mean_columns L outputs idxs
           = Inr (map (\<lambda>r. torch_mean L (map (\<lambda>i. r ! i) idxs)) (rows outputs))"
proof -
  have "\<not> list_ex (\<lambda>i. size1 outputs \<le> i) idxs"
    using assms by (auto simp: list_ex_iff list_all_iff)
  then show ?thesis by (simp add: mean_columns_def)
qed

lemma class_means_ok:
  assumes "\<forall>l\<in>set ls. \<exists>idxs. new_to_old_classes nd l = Some idxs
              \<and> list_all (\<lambda>i. i < size1 outputs) idxs"
  shows "class_means L nd outputs ls
           = Inr (map (\<lambda>l. map (\<lambda>r. spec_class_mean L nd r l) (rows outputs)) ls)"
  using assms
proof (induction ls)
  case Nil
  then show ?case by simp
next
  case (Cons l ls)
  then obtain idxs where i: "new_to_old_classes nd l = Some idxs"       "list_all (\<lambda>i. i < size1 outputs) idxs" by auto
  have "class_means L nd outputs ls
           = Inr (map (\<lambda>l. map (\<lambda>r. spec_class_mean L nd r l) (rows outputs)) ls)"
    using Cons by simp
  then show ?case
    by (simp add: i(1) mean_columns_ok[OF i(2)] spec_class_mean_def)
qed

lemma node_outputs_ok:
  assumes "0 < num_classes nd"
      and "\<forall>l<num_classes nd. \<exists>idxs. new_to_old_classes nd l = Some idxs
              \<and> list_all (\<lambda>i. i < size1 outputs) idxs"
  shows "node_outputs L nd outputs
           = Inr \<lparr>size1 = num_classes nd, rows = map (spec_node_scores L nd) (rows outputs)\<rparr>"
proof -
  have cm: "class_means L nd outputs [0..<num_classes nd]
           = Inr (map (\<lambda>l. map (\<lambda>r. spec_class_mean L nd r l) (rows outputs)) [0..<num_classes nd])"
    using assms(2) by (intro class_means_ok) simp
  show ?thesis unfolding node_outputs_def cm using assms(1)
    by (auto intro!: nth_equalityI simp: spec_node_scores_def)
qed

lemma outputs_by_wnid_ok:
  assumes "distinct (map wnid nds)"
      and "\<forall>nd\<in>set nds. 0 < num_classes nd \<and>
             (\<forall>l<num_classes nd. \<exists>idxs. new_to_old_classes nd l = Some idxs
                \<and> list_all (\<lambda>i. i < size1 outputs) idxs)"
  shows "\<exists>w2o. outputs_by_wnid L nds outputs m = Inr w2o
           \<and> (\<forall>nd\<in>set nds. w2o (wnid nd)
                 = Some \<lparr>size1 = num_classes nd, rows = map (spec_node_scores L nd) (rows outputs)\<rparr>)
           \<and> (\<forall>w. w \<notin> wnid ` set nds \<longrightarrow> w2o w = m w)"
  using assms
proof (induction nds arbitrary: m)
  case Nil
  then show ?case by simp
next
  case (Cons nd nds)
  let ?t = "\<lparr>size1 = num_classes nd, rows = map (spec_node_scores L nd) (rows outputs)\<rparr>"
  have no: "node_outputs L nd outputs = Inr ?t"
    using Cons.prems(2) by (intro node_outputs_ok) auto
  from Cons.prems have d: "distinct (map wnid nds)" and notin: "wnid nd \<notin> wnid ` set nds" by auto
  have rest: "\<forall>nd\<in>set nds. 0 < num_classes nd \<and>
             (\<forall>l<num_classes nd. \<exists>idxs. new_to_old_classes nd l = Some idxs
                \<and> list_all (\<lambda>i. i < size1 outputs) idxs)"
    using Cons.prems(2) by simp
  from Cons.IH[OF d rest, of "m(wnid nd \<mapsto> ?t)"]
  obtain w2o where w: "outputs_by_wnid L nds outputs (m(wnid nd \<mapsto> ?t)) = Inr w2o"
      "\<forall>nd\<in>set nds. w2o (wnid nd)
                 = Some \<lparr>size1 = num_classes nd, rows = map (spec_node_scores L nd) (rows outputs)\<rparr>"
      "\<forall>w. w \<notin> wnid ` set nds \<longrightarrow> w2o w = (m(wnid nd \<mapsto> ?t)) w"
    by blast
  from w(3) notin have "w2o (wnid nd) = Some ?t" by simp
  moreover have "\<forall>w. w \<notin> wnid ` set (nd # nds) \<longrightarrow> w2o w = m w" using w(3) by simp
  ultimately show ?case using w(1,2) by (simp add: no)
qed

lemma imul_columns_ok:
  assumes "list_all (\<lambda>j. j < k) olds" "length (rows output) = length cp" "c < size1 output"
  shows "imul_columns L k cp olds output c
           = Inr (map (\<lambda>i. scale_row L olds (rows output ! i ! c) (cp ! i)) [0..<length cp])"
proof -
  have a: "\<not> list_ex (\<lambda>j. k \<le> j) olds"
    using assms(1) by (auto simp: list_ex_iff list_all_iff)
  have b: "map (\<lambda>i. scale_row L olds
                      (rows output ! (if length (rows output) = 1 then 0 else i) ! c) (cp ! i))
               [0..<length cp]
         = map (\<lambda>i. scale_row L olds (rows output ! i ! c) (cp ! i)) [0..<length cp]"
    using assms(2) by (intro map_cong) auto
  show ?thesis unfolding imul_columns_def using a assms(2,3) b by simp
qed

lemma for_children_ok:
  assumes "\<forall>c\<in>set cs. c < size1 output \<and>
             (\<exists>olds. new_to_old_classes nd c = Some olds \<and> list_all (\<lambda>j. j < k) olds)"
      and "length (rows output) = length cp"
  shows "for_children L nd output k cs cp
           = Inr (map (\<lambda>i. fold (\<lambda>c p. scale_row L (the (new_to_old_classes nd c))
                                          (rows output ! i ! c) p) cs (cp ! i))
                      [0..<length cp])"
  using assms
proof (induction cs arbitrary: cp)
  case Nil
  then show ?case by (simp add: map_nth)
next
  case (Cons c cs)
  then obtain olds where o: "new_to_old_classes nd c = Some olds" "list_all (\<lambda>j. j < k) olds"
      and c: "c < size1 output" by auto
  let ?cp' = "map (\<lambda>i. scale_row L olds (rows output ! i ! c) (cp ! i)) [0..<length cp]"
  have im: "imul_columns L k cp olds output c = Inr ?cp'"
    using o(2) Cons.prems(2) c by (rule imul_columns_ok)
  have len: "length (rows output) = length ?cp'" using Cons.prems(2) by simp
  have rest: "\<forall>c\<in>set cs. c < size1 output \<and>
             (\<exists>olds. new_to_old_classes nd c = Some olds \<and> list_all (\<lambda>j. j < k) olds)"
    using Cons.prems(1) by simp
  have "for_children L nd output k (c # cs) cp = for_children L nd output k cs ?cp'"
    by (simp add: o(1) im)
  also have "\<dots> = Inr (map (\<lambda>i. fold (\<lambda>c p. scale_row L (the (new_to_old_classes nd c))
                                          (rows output ! i ! c) p) cs (?cp' ! i))
                      [0..<length ?cp'])"
    using rest len by (rule Cons.IH)
  also have "\<dots> = Inr (map (\<lambda>i. fold (\<lambda>c p. scale_row L (the (new_to_old_classes nd c))
                                          (rows output ! i ! c) p) (c # cs) (cp ! i))
                      [0..<length cp])"
    by (simp add: o(1))
  finally show ?case .
qed

lemma spec_multiply_node_fold:
  "fold (\<lambda>c p. scale_row L (the (new_to_old_classes nd c)) (torch_softmax L (spec_node_scores L nd row) ! c) p) cs probs
     = fold (spec_multiply_child L nd row) cs probs"
proof -
  have "(\<lambda>c p. scale_row L (the (new_to_old_classes nd c)) (torch_softmax L (spec_node_scores L nd row) ! c) p)
      = spec_multiply_child L nd row"
    by (intro ext) (simp add: scale_row_def spec_multiply_child_def)
  then show ?thesis by simp
qed

lemma for_nodes_ok:
  assumes "\<forall>nd\<in>set nds.
             w2o (wnid nd) = Some \<lparr>size1 = num_classes nd, rows = map (spec_node_scores L nd) rs\<rparr>
             \<and> length (children nd) \<le> num_classes nd
             \<and> (\<forall>c<length (children nd).
                   \<exists>olds. new_to_old_classes nd c = Some olds \<and> list_all (\<lambda>j. j < k) olds)"
      and "length cp = length rs"
  shows "for_nodes L w2o k nds cp
           = Inr (map (\<lambda>i. fold (spec_multiply_node L (rs ! i)) nds (cp ! i)) [0..<length cp])"
  using assms
proof (induction nds arbitrary: cp)
  case Nil
  show ?case by (simp add: map_nth)
next
  case (Cons nd nds)
  let ?out = "softmax_dim1 L \<lparr>size1 = num_classes nd, rows = map (spec_node_scores L nd) rs\<rparr>"
  let ?cp' = "map (\<lambda>i. spec_multiply_node L (rs ! i) nd (cp ! i)) [0..<length cp]"
  have look: "w2o (wnid nd) = Some \<lparr>size1 = num_classes nd, rows = map (spec_node_scores L nd) rs\<rparr>"
    using Cons.prems(1) by simp
  have ch: "\<forall>c\<in>set [0..<length (children nd)]. c < size1 ?out \<and>
             (\<exists>olds. new_to_old_classes nd c = Some olds \<and> list_all (\<lambda>j. j < k) olds)"
    using Cons.prems(1) by (auto simp: softmax_dim1_def)
  have len: "length (rows ?out) = length cp"
    using Cons.prems(2) by (simp add: softmax_dim1_def)
  have "for_children L nd ?out k [0..<length (children nd)] cp
           = Inr (map (\<lambda>i. fold (\<lambda>c p. scale_row L (the (new_to_old_classes nd c))
                                          (rows ?out ! i ! c) p) [0..<length (children nd)] (cp ! i))
                      [0..<length cp])"
    using ch len by (rule for_children_ok)
  also have "map (\<lambda>i. fold (\<lambda>c p. scale_row L (the (new_to_old_classes nd c))
                                          (rows ?out ! i ! c) p) [0..<length (children nd)] (cp ! i))
                      [0..<length cp] = ?cp'"
    using Cons.prems(2)
    by (intro map_cong refl)
       (simp add: softmax_dim1_def spec_multiply_node_def spec_multiply_node_fold)
  finally have fc: "for_children L nd ?out k [0..<length (children nd)] cp = Inr ?cp'" .
  have rest: "\<forall>nd\<in>set nds.
             w2o (wnid nd) = Some \<lparr>size1 = num_classes nd, rows = map (spec_node_scores L nd) rs\<rparr>
             \<and> length (children nd) \<le> num_classes nd
             \<and> (\<forall>c<length (children nd).
                   \<exists>olds. new_to_old_classes nd c = Some olds \<and> list_all (\<lambda>j. j < k) olds)"
    using Cons.prems(1) by simp
  have len': "length ?cp' = length rs" using Cons.prems(2) by simp
  have "for_nodes L w2o k (nd # nds) cp = for_nodes L w2o k nds ?cp'"
    by (simp add: look fc)
  also have "\<dots> = Inr (map (\<lambda>i. fold (spec_multiply_node L (rs ! i)) nds (?cp' ! i)) [0..<length ?cp'])"
    using rest len' by (rule Cons.IH)
  also have "\<dots> = Inr (map (\<lambda>i. fold (spec_multiply_node L (rs ! i)) (nd # nds) (cp ! i)) [0..<length cp])"
    by simp
  finally show ?case .
qed

lemma Bayesian_traverse_tree_ok:
  assumes "\<forall>nd\<in>set (nodes self).
             w2o (wnid nd) = Some \<lparr>size1 = num_classes nd, rows = map (spec_node_scores L nd) rs\<rparr>
             \<and> length (children nd) \<le> num_classes nd
             \<and> (\<forall>c<length (children nd).
                   \<exists>olds. new_to_old_classes nd c = Some olds
                      \<and> list_all (\<lambda>j. j < length (classes self)) olds)"
      and "classes self \<noteq> []"
  shows "Bayesian_traverse_tree L self predicted w2o (length rs)
           = Inr (map (\<lambda>row. float32_long
                         (spec_soft_prediction L (nodes self) (length (classes self)) row)) rs)"
proof -
  let ?k = "length (classes self)"
  let ?cp = "replicate (length rs) (replicate ?k (np_one L))"
  have "for_nodes L w2o ?k (nodes self) ?cp
          = Inr (map (\<lambda>i. fold (spec_multiply_node L (rs ! i)) (nodes self) (?cp ! i)) [0..<length ?cp])"
    using assms(1) by (rule for_nodes_ok) simp
  also have "map (\<lambda>i. fold (spec_multiply_node L (rs ! i)) (nodes self) (?cp ! i)) [0..<length ?cp]
           = map (spec_class_probs L (nodes self) ?k) rs"
    by (rule nth_equalityI) (simp_all add: spec_class_probs_def)
  finally show ?thesis
    using assms(2) by (simp add: Bayesian_traverse_tree_def spec_soft_prediction_def comp_def)
qed

lemma case_option_False_iff:
  "(case m of None \<Rightarrow> False | Some x \<Rightarrow> P x) \<longleftrightarrow> (\<exists>x. m = Some x \<and> P x)"
  by (cases m) auto

lemma soft_routableD:
  assumes "soft_routable self outputs"
  shows "distinct (map wnid (nodes self))" "classes self \<noteq> []"
    and "\<forall>nd\<in>set (nodes self). 0 < num_classes nd \<and>
             (\<forall>l<num_classes nd. \<exists>idxs. new_to_old_classes nd l = Some idxs
                \<and> list_all (\<lambda>i. i < size1 outputs) idxs)"
    and "\<forall>nd\<in>set (nodes self). length (children nd) \<le> num_classes nd
             \<and> (\<forall>c<length (children nd).
                   \<exists>olds. new_to_old_classes nd c = Some olds
                      \<and> list_all (\<lambda>j. j < length (classes self)) olds)"
proof -
  from assms show "distinct (map wnid (nodes self))" "classes self \<noteq> []"
    by (simp_all add: soft_routable_def)
  from assms have all: "\<forall>nd\<in>set (nodes self).
      0 < num_classes nd \<and> length (children nd) \<le> num_classes nd \<and>
      (\<forall>l<num_classes nd. \<exists>idxs. new_to_old_classes nd l = Some idxs \<and>           (\<forall>i\<in>set idxs. i < size1 outputs \<and> i < length (classes self)))"
    by (simp add: soft_routable_def list_all_iff case_option_False_iff)
  show "\<forall>nd\<in>set (nodes self). 0 < num_classes nd \<and>
             (\<forall>l<num_classes nd. \<exists>idxs. new_to_old_classes nd l = Some idxs
                \<and> list_all (\<lambda>i. i < size1 outputs) idxs)"
    using all by (fastforce simp: list_all_iff)
  show "\<forall>nd\<in>set (nodes self). length (children nd) \<le> num_classes nd
             \<and> (\<forall>c<length (children nd).
                   \<exists>olds. new_to_old_classes nd c = Some olds
                      \<and> list_all (\<lambda>j. j < length (classes self)) olds)"
  proof (intro ballI conjI allI impI)
    fix nd assume nd: "nd \<in> set (nodes self)"
    with all show "length (children nd) \<le> num_classes nd" by simp
    fix c assume "c < length (children nd)"
    with all nd have "c < num_classes nd" by fastforce
    with all nd obtain idxs where "new_to_old_classes nd c = Some idxs"
      "\<forall>i\<in>set idxs. i < size1 outputs \<and> i < length (classes self)" by blast
    then show "\<exists>olds. new_to_old_classes nd c = Some olds
                      \<and> list_all (\<lambda>j. j < length (classes self)) olds"
      by (simp add: list_all_iff)
  qed
qed

lemma Bayesian_predicted_spec:
  assumes "soft_routable self outputs"
  shows "Bayesian_predicted L self outputs predicted
           = Inr (map (\<lambda>row. float32_long
                         (spec_soft_prediction L (nodes self) (length (classes self)) row))
                      (rows outputs))"
proof -
  note d = soft_routableD[OF assms]
  from outputs_by_wnid_ok[OF d(1) d(3), where m = Map.empty]
  obtain w2o where w: "outputs_by_wnid L (nodes self) outputs Map.empty = Inr w2o"
    "\<forall>nd\<in>set (nodes self). w2o (wnid nd)
        = Some \<lparr>size1 = num_classes nd, rows = map (spec_node_scores L nd) (rows outputs)\<rparr>"
    by blast
  have "\<forall>nd\<in>set (nodes self).
             w2o (wnid nd) = Some \<lparr>size1 = num_classes nd, rows = map (spec_node_scores L nd) (rows outputs)\<rparr>
             \<and> length (children nd) \<le> num_classes nd
             \<and> (\<forall>c<length (children nd).
                   \<exists>olds. new_to_old_classes nd c = Some olds
                      \<and> list_all (\<lambda>j. j < length (classes self)) olds)"
    using w(2) d(4) by simp
  from Bayesian_traverse_tree_ok[OF this d(2), where predicted = predicted] w(1)
  show ?thesis by (simp add: Bayesian_predicted_def)
qed

lemma imul_columns_shape:
  "imul_columns L k cp olds output c = Inr cp' \<Longrightarrow> map length cp' = map length cp"
  by (auto simp: imul_columns_def scale_row_def split: if_splits intro!: nth_equalityI)

lemma for_children_shape:
  "for_children L nd output k cs cp = Inr cp' \<Longrightarrow> map length cp' = map length cp"
proof (induction cs arbitrary: cp)
  case Nil
  then show ?case by simp
next
  case (Cons c cs)
  from Cons.prems obtain olds cp1 where
    s: "imul_columns L k cp olds output c = Inr cp1" "for_children L nd output k cs cp1 = Inr cp'"
    by (auto split: option.splits sum.splits)
  from Cons.IH[OF s(2)] imul_columns_shape[OF s(1)] show ?case by simp
qed

lemma for_nodes_shape:
  "for_nodes L w2o k nds cp = Inr cp' \<Longrightarrow> map length cp' = map length cp"
proof (induction nds arbitrary: cp)
  case Nil
  then show ?case by simp
next
  case (Cons nd nds)
  from Cons.prems obtain out cp1 where
    s: "for_children L nd (softmax_dim1 L out) k [0..<length (children nd)] cp = Inr cp1"
       "for_nodes L w2o k nds cp1 = Inr cp'"
    by (auto split: option.splits sum.splits)
  from Cons.IH[OF s(2)] for_children_shape[OF s(1)] show ?case by simp
qed

section \<open>The float32 round trip and the argmax scan\<close>

lemma float32_long_small:
  assumes "\<bar>n\<bar> < 2 ^ 24"
  shows "float32_long n = n"
proof -
  have "bitlen \<bar>n\<bar> \<le> 24" using assms by (simp add: bitlen_le_iff_power)
  then have "nat (bitlen \<bar>n\<bar> - 24) = 0" by simp
  then show ?thesis by (simp add: float32_long_def Let_def mult_sgn_abs)
qed

lemma float32_long_25:
  assumes "2 ^ 24 \<le> n" "n < 2 ^ 25"
  shows "float32_long n
           = (if n mod 2 = 0 \<or> even (n div 2) then n div 2 else n div 2 + 1) * 2"
proof -
  have pos: "0 < n" using assms(1) by (rule less_le_trans[rotated]) simp
  have "bitlen n \<le> 25" using assms(2) by (simp add: bitlen_le_iff_power)
  moreover have "25 \<le> bitlen n" using assms(1) by (simp add: bitlen_ge_iff_power)
  ultimately have b: "bitlen n = 25" by simp
  have r: "n mod 2 = 0 \<or> n mod 2 = 1" by presburger
  show ?thesis
    using pos r by (auto simp: float32_long_def Let_def b)
qed

lemma float32_long_16777217: "float32_long 16777217 = 16777216"
  by (subst float32_long_25) simp_all

lemma float32_long_16777219: "float32_long 16777219 = 16777220"
  by (subst float32_long_25) simp_all

lemma argmax_from_bound: "best < i \<Longrightarrow> argmax_from L best v i xs < i + length xs"
proof (induction xs arbitrary: best v i)
  case Nil
  then show ?case by simp
next
  case (Cons x xs)
  have a: "argmax_from L i x (Suc i) xs < Suc i + length xs" by (rule Cons.IH) simp
  have b: "argmax_from L best v (Suc i) xs < Suc i + length xs"
    by (rule Cons.IH) (use Cons.prems in simp)
  from a b Cons.prems show ?case by simp
qed

lemma argmax_less: "xs \<noteq> [] \<Longrightarrow> argmax L xs < length xs"
  using argmax_from_bound[of 0 1] by (cases xs) (auto simp: argmax_def)

section \<open>Rounding to the nearest float\<close>

lemma rne_of_int: "rne (of_int z) = z"
  by (simp add: rne_def)

lemma rne_bounds: "\<lfloor>x\<rfloor> \<le> rne x" "rne x \<le> \<lfloor>x\<rfloor> + 1"
  by (simp_all add: rne_def)

lemma rne_mono: "x \<le> y \<Longrightarrow> rne x \<le> rne y"
proof -
  assume xy: "x \<le> y"
  then have f: "\<lfloor>x\<rfloor> \<le> \<lfloor>y\<rfloor>" by (rule floor_mono)
  show ?thesis
  proof (cases "\<lfloor>x\<rfloor> = \<lfloor>y\<rfloor>")
    case True
    with xy show ?thesis by (auto simp: rne_def)
  next
    case False
    with f have "\<lfloor>x\<rfloor> + 1 \<le> \<lfloor>y\<rfloor>" by simp
    with rne_bounds(2)[of x] rne_bounds(1)[of y] show ?thesis by linarith
  qed
qed

lemma rne_le_int: "x \<le> of_int z \<Longrightarrow> rne x \<le> z"
  using rne_mono[of x "of_int z"] by (simp add: rne_of_int)

lemma rne_ge_int: "of_int z \<le> x \<Longrightarrow> z \<le> rne x"
  using rne_mono[of "of_int z" x] by (simp add: rne_of_int)

lemma rne_small: "0 \<le> x \<Longrightarrow> x < 1 / 2 \<Longrightarrow> rne x = 0"
proof -
  assume a: "0 \<le> x" "x < 1 / 2"
  then have "\<lfloor>x\<rfloor> = 0" by (simp add: floor_eq_iff)
  with a show ?thesis by (simp add: rne_def)
qed


text \<open>exponent and quantum of a positive number\<close>

lemma two_powr_floor_log_le: "0 < x \<Longrightarrow> 2 powr of_int \<lfloor>log 2 x\<rfloor> \<le> x"
  by (simp add: powr_le_iff)

lemma less_two_powr_floor_log: "0 < x \<Longrightarrow> x < 2 powr (of_int \<lfloor>log 2 x\<rfloor> + 1)"
  by (simp add: less_powr_iff)

lemma two_powr_int: "0 \<le> k \<Longrightarrow> (2::real) powr of_int k = 2 ^ nat k"
proof -
  assume "0 \<le> k"
  then have "(of_int k :: real) = real (nat k)" by simp
  then show ?thesis by (simp only: powr_realpow[of 2 "nat k", simplified])
qed

lemma rnd_zero: "rnd p emin 0 = 0"
  by (simp add: rnd_def)

lemma rnd_nonneg: "0 \<le> x \<Longrightarrow> 0 \<le> rnd p emin x"
proof -
  assume x: "0 \<le> x"
  have "(0::int) \<le> rne (x / 2 powr of_int k)" for k
    using rne_ge_int[of 0 "x / 2 powr of_int k"] x by simp
  then have "(0::real) \<le> 2 powr of_int k * of_int (rne (x / 2 powr of_int k))" for k
    by (intro mult_nonneg_nonneg) simp_all
  from this[of "max \<lfloor>log 2 \<bar>x\<bar>\<rfloor> emin - int p + 1"] show ?thesis
    unfolding rnd_def by (cases "x = 0") (simp_all only: if_True if_False refl order_refl)
qed

lemma rnd_upper:
  assumes x: "0 < x"
  shows "rnd p emin x \<le> 2 powr of_int (max \<lfloor>log 2 x\<rfloor> emin + 1)"
proof -
  define e where "e = max \<lfloor>log 2 x\<rfloor> emin"
  define q where "q = e - int p + 1"
  have r: "rnd p emin x = 2 powr of_int q * of_int (rne (x / 2 powr of_int q))"
    using x by (simp add: rnd_def e_def q_def)
  have "x < 2 powr (of_int \<lfloor>log 2 x\<rfloor> + 1)" using x by (rule less_two_powr_floor_log)
  also have "\<dots> \<le> 2 powr of_int (e + 1)" by (simp add: e_def)
  finally have xe: "x \<le> 2 powr of_int (e + 1)" by simp
  have split: "(2::real) powr of_int (e + 1) = 2 powr of_int q * 2 powr of_int (int p)"
    by (simp add: q_def powr_add[symmetric])
  have pp: "(2::real) powr of_int (int p) = of_int (2 ^ p)"
    using two_powr_int[of "int p"] by simp
  have "x / 2 powr of_int q \<le> 2 powr of_int (int p)"
    using xe split by (simp add: divide_le_eq mult.commute)
  then have "rne (x / 2 powr of_int q) \<le> 2 ^ p"
    unfolding pp by (rule rne_le_int)
  then have "(of_int (rne (x / 2 powr of_int q)) :: real) \<le> of_int (2 ^ p)"
    by (simp only: of_int_le_iff)
  then have "(2::real) powr of_int q * of_int (rne (x / 2 powr of_int q))
               \<le> 2 powr of_int q * 2 powr of_int (int p)"
    unfolding pp by (simp add: mult_le_cancel_left_pos)
  then show ?thesis unfolding r split e_def[symmetric] .
qed

lemma rnd_lower:
  assumes x: "0 < x" and e: "emin \<le> \<lfloor>log 2 x\<rfloor>" and p: "0 < p"
  shows "2 powr of_int \<lfloor>log 2 x\<rfloor> \<le> rnd p emin x"
proof -
  define e where "e = \<lfloor>log 2 x\<rfloor>"
  define q where "q = e - int p + 1"
  have m: "max \<lfloor>log 2 x\<rfloor> emin = e" using e by (simp add: e_def)
  have r: "rnd p emin x = 2 powr of_int q * of_int (rne (x / 2 powr of_int q))"
    using x by (simp add: rnd_def m q_def)
  have xe: "2 powr of_int e \<le> x" unfolding e_def using x by (rule two_powr_floor_log_le)
  have split: "(2::real) powr of_int e = 2 powr of_int q * 2 powr of_int (int p - 1)"
    by (simp add: q_def powr_add[symmetric])
  have pp: "(2::real) powr of_int (int p - 1) = of_int (2 ^ nat (int p - 1))"
    using two_powr_int[of "int p - 1"] p by simp
  have "2 powr of_int (int p - 1) \<le> x / 2 powr of_int q"
    using xe split by (simp add: le_divide_eq mult.commute)
  then have "2 ^ nat (int p - 1) \<le> rne (x / 2 powr of_int q)"
    unfolding pp by (rule rne_ge_int)
  then have "(of_int (2 ^ nat (int p - 1)) :: real) \<le> of_int (rne (x / 2 powr of_int q))"
    by (simp only: of_int_le_iff)
  then have "(2::real) powr of_int q * 2 powr of_int (int p - 1)
               \<le> 2 powr of_int q * of_int (rne (x / 2 powr of_int q))"
    unfolding pp by (simp add: mult_le_cancel_left_pos)
  then show ?thesis unfolding r split e_def[symmetric] .
qed

lemma rnd_mono_pos:
  assumes x: "0 < x" and xy: "x \<le> y" and p: "0 < p"
  shows "rnd p emin x \<le> rnd p emin y"
proof -
  have y: "0 < y" using x xy by simp
  have l: "\<lfloor>log 2 x\<rfloor> \<le> \<lfloor>log 2 y\<rfloor>"
    using x xy by (intro floor_mono) simp
  show ?thesis
  proof (cases "max \<lfloor>log 2 x\<rfloor> emin = max \<lfloor>log 2 y\<rfloor> emin")
    case True
    define q where "q = max \<lfloor>log 2 y\<rfloor> emin - int p + 1"
    have rx: "rnd p emin x = 2 powr of_int q * of_int (rne (x / 2 powr of_int q))"
      using x True by (simp add: rnd_def q_def)
    have ry: "rnd p emin y = 2 powr of_int q * of_int (rne (y / 2 powr of_int q))"
      using y by (simp add: rnd_def q_def)
    have "x / 2 powr of_int q \<le> y / 2 powr of_int q"
      using xy by (simp add: divide_right_mono)
    then have "rne (x / 2 powr of_int q) \<le> rne (y / 2 powr of_int q)" by (rule rne_mono)
    then show ?thesis unfolding rx ry by (simp add: mult_le_cancel_left_pos)
  next
    case False
    with l have lt: "max \<lfloor>log 2 x\<rfloor> emin < \<lfloor>log 2 y\<rfloor>" and ey: "emin \<le> \<lfloor>log 2 y\<rfloor>"
      by (auto simp: max_def split: if_splits)
    have "rnd p emin x \<le> 2 powr of_int (max \<lfloor>log 2 x\<rfloor> emin + 1)" using x by (rule rnd_upper)
    also have "\<dots> \<le> 2 powr of_int \<lfloor>log 2 y\<rfloor>"
    proof -
      from lt have "max \<lfloor>log 2 x\<rfloor> emin + 1 \<le> \<lfloor>log 2 y\<rfloor>" by linarith
      then have "(of_int (max \<lfloor>log 2 x\<rfloor> emin + 1) :: real) \<le> of_int \<lfloor>log 2 y\<rfloor>"
        by (simp only: of_int_le_iff)
      then show ?thesis by (rule powr_mono) simp
    qed
    also have "\<dots> \<le> rnd p emin y" using y ey p by (rule rnd_lower)
    finally show ?thesis .
  qed
qed

lemma rnd_mono:
  assumes x: "0 \<le> x" and xy: "x \<le> y" and p: "0 < p"
  shows "rnd p emin x \<le> rnd p emin y"
proof (cases "x = 0")
  case True
  have "0 \<le> rnd p emin y" using x xy by (intro rnd_nonneg) simp
  with True show ?thesis by (simp add: rnd_zero)
next
  case False
  with x have "0 < x" by simp
  then show ?thesis using xy p by (rule rnd_mono_pos)
qed

text \<open>a number with few enough significant bits is a float\<close>

lemma rnd_dyadic:
  assumes m: "\<bar>m\<bar> < 2 ^ p" and k: "emin - int p + 1 \<le> k"
  shows "rnd p emin (of_int m * 2 powr of_int k) = of_int m * 2 powr of_int k"
proof (cases "m = 0")
  case True
  then show ?thesis by (simp add: rnd_zero)
next
  case False
  define x :: real where "x = of_int m * 2 powr of_int k"
  define q where "q = max \<lfloor>log 2 \<bar>x\<bar>\<rfloor> emin - int p + 1"
  have x0: "x \<noteq> 0" using False by (simp add: x_def)
  have ax: "\<bar>x\<bar> = of_int \<bar>m\<bar> * 2 powr of_int k" by (simp add: x_def abs_mult)
  have "(of_int \<bar>m\<bar> :: real) < of_int (2 ^ p)" using m by (simp only: of_int_less_iff)
  also have "\<dots> = 2 powr of_int (int p)" using two_powr_int[of "int p"] by simp
  finally have "\<bar>x\<bar> < 2 powr of_int (int p) * 2 powr of_int k"
    unfolding ax by (simp add: mult_less_cancel_right_pos)
  then have "\<bar>x\<bar> < 2 powr of_int (int p + k)" by (simp add: powr_add)
  then have "log 2 \<bar>x\<bar> < of_int (int p + k)" using x0 by (simp add: log_less_iff)
  then have "\<lfloor>log 2 \<bar>x\<bar>\<rfloor> < int p + k" by (simp add: floor_less_iff)
  with k have qk: "q \<le> k" by (simp add: q_def)
  have "x / 2 powr of_int q = of_int m * 2 powr of_int (k - q)"
    by (simp add: x_def powr_diff)
  also have "\<dots> = of_int (m * 2 ^ nat (k - q))"
    using two_powr_int[of "k - q"] qk by simp
  finally have "rne (x / 2 powr of_int q) = m * 2 ^ nat (k - q)"
    by (simp only: rne_of_int)
  then have "rnd p emin x = 2 powr of_int q * of_int (m * 2 ^ nat (k - q))"
    using x0 by (simp add: rnd_def q_def)
  also have "\<dots> = 2 powr of_int q * (of_int m * 2 powr of_int (k - q))"
    using two_powr_int[of "k - q"] qk by simp
  also have "\<dots> = x" by (simp add: x_def powr_diff)
  finally show ?thesis by (simp add: x_def)
qed

lemma rnd_underflow:
  assumes x: "0 \<le> x" and s: "x < 2 powr of_int (emin - int p)"
  shows "rnd p emin x = 0"
proof (cases "x = 0")
  case True
  then show ?thesis by (simp add: rnd_zero)
next
  case False
  with x have xp: "0 < x" by simp
  have "x < 2 powr of_int emin"
    using s by (rule less_le_trans) simp
  then have "log 2 x < of_int emin" using xp by (simp add: log_less_iff)
  then have "\<lfloor>log 2 x\<rfloor> < emin" by (simp add: floor_less_iff)
  then have m: "max \<lfloor>log 2 x\<rfloor> emin = emin" by simp
  have "(2::real) powr of_int (emin - int p) = 2 powr of_int (emin - int p + 1) / 2"
    by (simp add: powr_add powr_diff)
  with s have "x / 2 powr of_int (emin - int p + 1) < 1 / 2"
    by (simp add: divide_less_eq)
  moreover have "0 \<le> x / 2 powr of_int (emin - int p + 1)" using x by simp
  ultimately have "rne (x / 2 powr of_int (emin - int p + 1)) = 0" by (intro rne_small)
  then show ?thesis using xp m by (simp add: rnd_def)
qed

lemma two_powr_neg_nat: "(2::real) powr of_int (- int n) = 1 / 2 ^ n"
proof -
  have "(2::real) powr of_int (- int n) = 2 powr (- real n)" by simp
  also have "\<dots> = inverse (2 powr real n)" by (rule powr_minus)
  also have "\<dots> = 1 / 2 ^ n" by (simp add: powr_realpow inverse_eq_divide)
  finally show ?thesis .
qed

lemma two_powr_neg_real: "(2::real) powr (- real n) = 1 / 2 ^ n"
  using two_powr_neg_nat[of n] by simp

lemma round32_int: "\<bar>m\<bar> < 16777216 \<Longrightarrow> round32 (of_int m) = of_int m"
  using rnd_dyadic[of m 24 "- 126" 0] by (simp add: round32_def)

lemma round32_frac:
  "\<bar>m\<bar> < 16777216 \<Longrightarrow> n \<le> 149 \<Longrightarrow> round32 (of_int m / 2 ^ n) = of_int m / 2 ^ n"
  using rnd_dyadic[of m 24 "- 126" "- int n"] by (simp add: round32_def two_powr_neg_real)

lemma round64_int: "\<bar>m\<bar> < 9007199254740992 \<Longrightarrow> round64 (of_int m) = of_int m"
  using rnd_dyadic[of m 53 "- 1022" 0] by (simp add: round64_def)

lemma round64_frac:
  "\<bar>m\<bar> < 9007199254740992 \<Longrightarrow> n \<le> 1074 \<Longrightarrow> round64 (of_int m / 2 ^ n) = of_int m / 2 ^ n"
  using rnd_dyadic[of m 53 "- 1022" "- int n"] by (simp add: round64_def two_powr_neg_real)

lemma round32_0: "round32 0 = 0"
  by (simp add: round32_def rnd_zero)

lemma round32_1: "round32 1 = 1"
  using round32_int[of 1] by simp

lemma round32_numeral: "numeral w < (16777216::int) \<Longrightarrow> round32 (numeral w) = numeral w"
  using round32_int[of "numeral w"] by simp

lemma round32_neg_numeral:
  "numeral w < (16777216::int) \<Longrightarrow> round32 (- numeral w) = - numeral w"
  using round32_int[of "- numeral w"] by simp

lemma round64_0: "round64 0 = 0"
  by (simp add: round64_def rnd_zero)

lemma round64_1: "round64 1 = 1"
  using round64_int[of 1] by simp

lemma round32_mono: "0 \<le> x \<Longrightarrow> x \<le> y \<Longrightarrow> round32 x \<le> round32 y"
  unfolding round32_def by (rule rnd_mono) simp_all

lemma round64_mono: "0 \<le> x \<Longrightarrow> x \<le> y \<Longrightarrow> round64 x \<le> round64 y"
  unfolding round64_def by (rule rnd_mono) simp_all

lemma round32_nonneg: "0 \<le> x \<Longrightarrow> 0 \<le> round32 x"
  unfolding round32_def by (rule rnd_nonneg)

lemma round64_nonneg: "0 \<le> x \<Longrightarrow> 0 \<le> round64 x"
  unfolding round64_def by (rule rnd_nonneg)

lemma round32_underflow: "0 \<le> x \<Longrightarrow> x < 1 / 2 ^ 150 \<Longrightarrow> round32 x = 0"
  using rnd_underflow[of x "- 126" 24] two_powr_neg_nat[of 150] by (simp add: round32_def)


text \<open>bounds of the exponential\<close>

lemma exp_one_ge_two: "2 \<le> exp (1::real)"
  using exp_ge_add_one_self[of "1::real"] by simp

lemma exp_neg_nat_le: "exp (- real n) \<le> 1 / 2 ^ n"
proof -
  have "(2::real) ^ n \<le> exp 1 ^ n" by (rule power_mono[OF exp_one_ge_two]) simp
  also have "\<dots> = exp (real n)" using exp_of_nat_mult[of n "1::real"] by simp
  finally have "2 ^ n \<le> exp (real n)" .
  then have "inverse (exp (real n)) \<le> inverse (2 ^ n)" by (intro le_imp_inverse_le) simp_all
  then show ?thesis by (simp add: exp_minus inverse_eq_divide)
qed

lemma exp_m1: "exp (- 1 :: real) \<le> 1 / 2"
  using exp_neg_nat_le[of 1] by simp

lemma exp_m2: "exp (- 2 :: real) \<le> 1 / 4"
  using exp_neg_nat_le[of 2] by simp

lemma exp_m4: "exp (- 4 :: real) \<le> 1 / 16"
  using exp_neg_nat_le[of 4] by simp

lemma round32_exp_m200: "round32 (exp (- 200)) = 0"
proof -
  have "exp (- 200 :: real) \<le> 1 / 2 ^ 200" using exp_neg_nat_le[of 200] by simp
  also have "\<dots> < 1 / 2 ^ 150" by (simp add: field_simps)
  finally show ?thesis by (intro round32_underflow) simp_all
qed


text \<open>a rounded non-negative number has few significant bits\<close>

lemma rne_scaled_le:
  assumes x: "0 < x"
  shows "rne (x / 2 powr of_int (max \<lfloor>log 2 x\<rfloor> emin - int p + 1)) \<le> 2 ^ p"
proof -
  define e where "e = max \<lfloor>log 2 x\<rfloor> emin"
  define q where "q = e - int p + 1"
  have "x < 2 powr (of_int \<lfloor>log 2 x\<rfloor> + 1)" using x by (rule less_two_powr_floor_log)
  also have "\<dots> \<le> 2 powr of_int (e + 1)" by (simp add: e_def)
  finally have xe: "x \<le> 2 powr of_int (e + 1)" by simp
  have split: "(2::real) powr of_int (e + 1) = 2 powr of_int q * 2 powr of_int (int p)"
    by (simp add: q_def powr_add[symmetric])
  have pp: "(2::real) powr of_int (int p) = of_int (2 ^ p)"
    using two_powr_int[of "int p"] by simp
  have "x / 2 powr of_int q \<le> 2 powr of_int (int p)"
    using xe split by (simp add: divide_le_eq mult.commute)
  then have "rne (x / 2 powr of_int q) \<le> 2 ^ p"
    unfolding pp by (rule rne_le_int)
  then show ?thesis unfolding q_def e_def .
qed

lemma rnd_rnd:
  assumes x: "0 \<le> x" and p: "p < p'" and e: "emin' - int p' \<le> emin - int p"
  shows "rnd p' emin' (rnd p emin x) = rnd p emin x"
proof (cases "x = 0")
  case True
  then show ?thesis by (simp add: rnd_zero)
next
  case False
  with x have xp: "0 < x" by simp
  define q where "q = max \<lfloor>log 2 x\<rfloor> emin - int p + 1"
  define m where "m = rne (x / 2 powr of_int q)"
  have r: "rnd p emin x = of_int m * 2 powr of_int q"
    using xp by (simp add: rnd_def q_def m_def)
  have "0 \<le> m" unfolding m_def using xp by (intro rne_ge_int) simp
  moreover have "m \<le> 2 ^ p" unfolding m_def q_def using xp by (rule rne_scaled_le)
  moreover have "(2::int) ^ p < 2 ^ p'" using p by simp
  ultimately have "\<bar>m\<bar> < 2 ^ p'" by linarith
  moreover have "emin' - int p' + 1 \<le> q" using e by (simp add: q_def)
  ultimately show ?thesis unfolding r by (rule rnd_dyadic)
qed

lemma round64_round32: "0 \<le> x \<Longrightarrow> round64 (round32 x) = round32 x"
  unfolding round64_def round32_def by (rule rnd_rnd) simp_all

section \<open>Hard routing: the traversal\<close>

lemma hard_routing_traversal:
  "(\<forall>nd index. w2ps (wnid nd) = None \<longrightarrow> sample_pred self w2ps nd index = Some (Inr (- 1)))
 \<and> (\<forall>nd index pred_sub selector.
       w2ps (wnid nd) = Some (pred_sub, selector) \<and> index < length selector \<and> \<not> selector ! index
        \<longrightarrow> sample_pred self w2ps nd index = Some (Inr (- 1)))
 \<and> (\<forall>nd index pred_sub selector index_child w.
       w2ps (wnid nd) = Some (pred_sub, selector) \<and> index < length selector \<and> selector ! index
       \<and> getitem pred_sub (index_new selector index) = Inr index_child
       \<and> getitem (children nd) index_child = Inr w
        \<longrightarrow> (\<forall>nd'. wnid_to_node self w = Some nd'
                  \<longrightarrow> sample_pred self w2ps nd index = sample_pred self w2ps nd' index)
          \<and> (wnid_to_node self w = None
                  \<longrightarrow> (case wnid_to_class self w of
                         None \<Rightarrow> sample_pred self w2ps nd index = Some (Inr (- 1))
                       | Some cls \<Rightarrow>
                           (\<exists>i. sample_pred self w2ps nd index = Some (Inr (int i))
                              \<and> list_index (classes self) cls = Some i
                              \<and> i < length (classes self) \<and> classes self ! i = cls))))
 \<and> (\<forall>node_root preds.
       wnid_to_node self (wnid_root self) = Some node_root
       \<and> traverse_tree self predicted w2ps n_samples = Some (Inr preds)
        \<longrightarrow> length preds = n_samples
          \<and> (\<forall>index<n_samples. \<exists>pred. sample_pred self w2ps node_root index = Some (Inr pred)
                                     \<and> preds ! index = float32_long pred))"
proof (intro conjI allI impI)
  fix nd :: node and index :: nat assume "w2ps (wnid nd) = None"
  then show "sample_pred self w2ps nd index = Some (Inr (- 1))"
    by (simp add: sample_pred_def walk_no_entry leaf_pred_def)
next
  fix nd :: node and index :: nat and pred_sub :: "int list" and selector :: "bool list"
  assume "w2ps (wnid nd) = Some (pred_sub, selector) \<and> index < length selector \<and> \<not> selector ! index"
  then show "sample_pred self w2ps nd index = Some (Inr (- 1))"
    by (simp add: sample_pred_def walk_not_selected leaf_pred_def)
next
  fix nd nd' :: node and index :: nat and pred_sub :: "int list" and selector :: "bool list"
    and index_child :: int and w :: string
  assume a: "w2ps (wnid nd) = Some (pred_sub, selector) \<and> index < length selector \<and> selector ! index
       \<and> getitem pred_sub (index_new selector index) = Inr index_child
       \<and> getitem (children nd) index_child = Inr w"
    and b: "wnid_to_node self w = Some nd'"
  from a have "walk self w2ps index nd =
      (case wnid_to_node self w of None \<Rightarrow> Some (Inr (Some w)) | Some nd' \<Rightarrow> walk self w2ps index nd')"
    by (intro walk_step) auto
  with b show "sample_pred self w2ps nd index = sample_pred self w2ps nd' index"
    by (simp add: sample_pred_def)
next
  fix nd :: node and index :: nat and pred_sub :: "int list" and selector :: "bool list"
    and index_child :: int and w :: string
  assume a: "w2ps (wnid nd) = Some (pred_sub, selector) \<and> index < length selector \<and> selector ! index
       \<and> getitem pred_sub (index_new selector index) = Inr index_child
       \<and> getitem (children nd) index_child = Inr w"
    and b: "wnid_to_node self w = None"
  from a have "walk self w2ps index nd =
      (case wnid_to_node self w of None \<Rightarrow> Some (Inr (Some w)) | Some nd' \<Rightarrow> walk self w2ps index nd')"
    by (intro walk_step) auto
  with b have sp: "sample_pred self w2ps nd index = Some (leaf_pred self (Some w))"
    by (simp add: sample_pred_def)
  show "case wnid_to_class self w of
          None \<Rightarrow> sample_pred self w2ps nd index = Some (Inr (- 1))
        | Some cls \<Rightarrow>
            (\<exists>i. sample_pred self w2ps nd index = Some (Inr (int i))
               \<and> list_index (classes self) cls = Some i
               \<and> i < length (classes self) \<and> classes self ! i = cls)"
  proof (cases "wnid_to_class self w")
    case None
    then show ?thesis by (simp add: sp leaf_pred_def)
  next
    case (Some cls)
    from wnid_to_class_index[OF Some] obtain i where
      "list_index (classes self) cls = Some i" "i < length (classes self)" "classes self ! i = cls"
      by blast
    with Some show ?thesis by (simp add: sp leaf_pred_def)
  qed
next
  fix node_root :: node and preds :: "int list"
  assume a: "wnid_to_node self (wnid_root self) = Some node_root
       \<and> traverse_tree self predicted w2ps n_samples = Some (Inr preds)"
  then obtain ps where ps: "for_samples (sample_pred self w2ps node_root) [0..<n_samples] = Some (Inr ps)"
    and p: "preds = map float32_long ps"
    by (auto simp: traverse_tree_def split: option.splits sum.splits)
  from for_samples_Inr[OF ps] p show "length preds = n_samples" by simp
next
  fix node_root :: node and preds :: "int list" and index :: nat
  assume a: "wnid_to_node self (wnid_root self) = Some node_root
       \<and> traverse_tree self predicted w2ps n_samples = Some (Inr preds)"
    and i: "index < n_samples"
  from a obtain ps where ps: "for_samples (sample_pred self w2ps node_root) [0..<n_samples] = Some (Inr ps)"
    and p: "preds = map float32_long ps"
    by (auto simp: traverse_tree_def split: option.splits sum.splits)
  from for_samples_Inr[OF ps] i p
  show "\<exists>pred. sample_pred self w2ps node_root index = Some (Inr pred)
               \<and> preds ! index = float32_long pred" by simp
qed

lemma list_index_at:
  "i < length xs \<Longrightarrow> xs ! i = x \<Longrightarrow> (\<forall>j<i. xs ! j \<noteq> x) \<Longrightarrow> list_index xs x = Some i"
proof (induction xs arbitrary: i)
  case Nil
  then show ?case by simp
next
  case (Cons y ys)
  show ?case
  proof (cases i)
    case 0
    with Cons.prems show ?thesis by simp
  next
    case (Suc k)
    from Cons.prems(3) Suc have ne: "y \<noteq> x" by fastforce
    have "list_index ys x = Some k"
    proof (rule Cons.IH)
      show "k < length ys" using Cons.prems(1) Suc by simp
      show "ys ! k = x" using Cons.prems(2) Suc by simp
      show "\<forall>j<k. ys ! j \<noteq> x"
      proof (intro allI impI)
        fix j assume "j < k"
        then have "Suc j < i" using Suc by simp
        with Cons.prems(3) have "(y # ys) ! Suc j \<noteq> x" by blast
        then show "ys ! j \<noteq> x" by simp
      qed
    qed
    with ne Suc show ?thesis by simp
  qed
qed

lemma class_name_inj: "class_name i = class_name j \<longleftrightarrow> i = j"
  by (auto simp: class_name_def replicate_eq_replicate)

lemma wnid_name_inj: "wnid_name i = wnid_name j \<longleftrightarrow> i = j"
  by (auto simp: wnid_name_def replicate_eq_replicate)

lemma list_index_class_name:
  "k < n \<Longrightarrow> list_index (map class_name [0..<n]) (class_name k) = Some k"
  by (rule list_index_at) (simp_all add: class_name_inj)

lemma named_wnid_to_class:
  assumes "k < n"
  shows "map_of (rev (zip (map wnid_name [0..<n]) (map class_name [0..<n]))) (wnid_name k)
           = Some (class_name k)"
proof (rule map_of_is_SomeI)
  have "map fst (zip (map wnid_name [0..<n]) (map class_name [0..<n])) = map wnid_name [0..<n]"
    by simp
  moreover have "distinct (map wnid_name [0..<n])"
    by (simp add: distinct_map inj_on_def wnid_name_inj)
  ultimately show "distinct (map fst (rev (zip (map wnid_name [0..<n]) (map class_name [0..<n]))))"
    by (simp only: rev_map[symmetric] distinct_rev)
  have "(wnid_name k, class_name k) \<in> set (zip (map wnid_name [0..<n]) (map class_name [0..<n]))"
    using assms by (auto simp: in_set_zip intro!: exI[of _ k])
  then show "(wnid_name k, class_name k)
               \<in> set (rev (zip (map wnid_name [0..<n]) (map class_name [0..<n])))"
    by simp
qed

lemma leafy_lookups:
  "wnid_to_node (leafy_prior n) ''r'' = Some (leafy_node n)"
  "wnid_to_node (leafy_prior n) (wnid_name k) = None"
  "wnid_to_class (leafy_prior n) (wnid_name n) = Some (class_name n)"
  "list_index (classes (leafy_prior n)) (class_name n) = Some n"
  "length (classes (leafy_prior n)) = Suc n"
proof -
  show "wnid_to_node (leafy_prior n) ''r'' = Some (leafy_node n)"
    by (simp add: wnid_to_node_def leafy_prior_def leafy_node_def)
  show "wnid_to_node (leafy_prior n) (wnid_name k) = None"
    by (simp add: wnid_to_node_def leafy_prior_def leafy_node_def wnid_name_def)
  have "wnid_to_class (leafy_prior n) (wnid_name n)
          = map_of (rev (zip (map wnid_name [0..<Suc n]) (map class_name [0..<Suc n]))) (wnid_name n)"
    unfolding wnid_to_class_def leafy_prior_def by (simp del: upt_Suc)
  then show "wnid_to_class (leafy_prior n) (wnid_name n) = Some (class_name n)"
    by (simp only: named_wnid_to_class[OF lessI])
  have "classes (leafy_prior n) = map class_name [0..<Suc n]"
    by (simp add: leafy_prior_def)
  then show "list_index (classes (leafy_prior n)) (class_name n) = Some n"
    by (simp only: list_index_class_name[OF lessI])
  show "length (classes (leafy_prior n)) = Suc n"
    by (simp add: leafy_prior_def)
qed

lemma leafy_walk:
  "walk (leafy_prior n) [''r'' \<mapsto> ([1], [True])] 0 (leafy_node n) = Some (Inr (Some (wnid_name n)))"
proof -
  have "walk (leafy_prior n) [''r'' \<mapsto> ([1], [True])] 0 (leafy_node n) =
          (case wnid_to_node (leafy_prior n) (wnid_name n) of
             None \<Rightarrow> Some (Inr (Some (wnid_name n)))
           | Some nd' \<Rightarrow> walk (leafy_prior n) [''r'' \<mapsto> ([1], [True])] 0 nd')"
    by (rule walk_step[where pred_sub = "[1]" and selector = "[True]" and index_child = 1])
       (simp_all add: leafy_node_def index_new_def getitem_def)
  then show ?thesis by (simp add: leafy_lookups)
qed

lemma leafy_sample_pred:
  "sample_pred (leafy_prior n) [''r'' \<mapsto> ([1], [True])] (leafy_node n) 0 = Some (Inr (int n))"
  by (simp add: sample_pred_def leafy_walk leaf_pred_def leafy_lookups)

lemma leafy_traverse_tree:
  "traverse_tree (leafy_prior n) predicted [''r'' \<mapsto> ([1], [True])] 1
     = Some (Inr [float32_long (int n)])"
proof -
  have r: "wnid_to_node (leafy_prior n) (wnid_root (leafy_prior n)) = Some (leafy_node n)"
    using leafy_lookups(1)[of n] by (simp add: leafy_prior_def)
  have u: "[0..<1] = [0]" by simp
  show ?thesis unfolding traverse_tree_def r u by (simp add: leafy_sample_pred)
qed

text \<open>
  Claim C1. \<^verbatim>\<open>DecisionTreePrior.traverse_tree\<close> is said to give, for a
  sample whose walk ends at an identifier without a node, the index of the
  class that \<^verbatim>\<open>wnid_to_class\<close> gives for that identifier. The walk of one
  sample does what the claim says (\<open>hard_routing_traversal\<close>), but the value
  returned is \<^verbatim>\<open>torch.Tensor(preds).long()\<close>, which takes every index
  through float32. On a hierarchy of \<open>16777218\<close> classes whose root sends the
  one sample to the leaf of the last class, the lookup gives the class at
  index \<open>16777217\<close>, which is the prediction appended for the sample, and the
  call returns \<open>16777216\<close>.
\<close>

theorem traverse_tree_float32_index:
  "wnid_to_class (leafy_prior 16777217) (wnid_name 16777217) = Some (class_name 16777217)
   \<and> list_index (classes (leafy_prior 16777217)) (class_name 16777217) = Some 16777217
   \<and> sample_pred (leafy_prior 16777217) [''r'' \<mapsto> ([1], [True])] (leafy_node 16777217) 0
       = Some (Inr 16777217)
   \<and> traverse_tree (leafy_prior 16777217) [] [''r'' \<mapsto> ([1], [True])] 1
       = Some (Inr [16777216])"
proof -
  have "int 16777217 = 16777217" by simp
  with leafy_sample_pred[of 16777217] leafy_traverse_tree[of 16777217 "[]"]
       leafy_lookups(3,4)[of 16777217] float32_long_16777217
  show ?thesis by (simp only:) 
qed

section \<open>Hard routing: the end of the traversal\<close>

text \<open>
  Claim C10, as the code has it. When the child links that can be followed
  from the root are acyclic (the root lies in a set \<open>S\<close> of nodes that is
  closed under child links and on which a rank decreases along every link),
  the \<^verbatim>\<open>while\<close> statement of \<^verbatim>\<open>DecisionTreePrior.traverse_tree\<close> ends for
  every sample, and so does the whole call. It ends with the unresolved
  outcome, at an identifier without a node, or with the \<^verbatim>\<open>IndexError\<close> of
  one of its list reads; when the decision data of the nodes in \<open>S\<close> are in
  lock-step with the batch (a selector entry for the sample, as many local
  predictions as true entries, every prediction a position of a child), it
  ends with one of the first two.
\<close>

theorem hard_routing_terminates:
  assumes "wnid_to_node self (wnid_root self) = Some node_root"
      and "node_root \<in> S"
      and "\<forall>p\<in>S. \<forall>c\<in>set (children p). \<forall>q. wnid_to_node self c = Some q \<longrightarrow> q \<in> S \<and> rank q < (rank p :: nat)"
  shows "(\<forall>index. \<exists>r. walk self w2ps index node_root = Some r \<and>
            (case r of Inl e \<Rightarrow> e = IndexError
                     | Inr None \<Rightarrow> True
                     | Inr (Some w) \<Rightarrow> wnid_to_node self w = None))
       \<and> (\<exists>res. traverse_tree self predicted w2ps n_samples = Some res)
       \<and> (\<forall>index.
            (\<forall>p\<in>S. \<forall>ps sel. w2ps (wnid p) = Some (ps, sel) \<longrightarrow>
                index < length sel \<and> length ps = length (filter id sel)
                \<and> (\<forall>ic\<in>set ps. 0 \<le> ic \<and> ic < int (length (children p))))
            \<longrightarrow> (\<exists>w. walk self w2ps index node_root = Some (Inr w) \<and>
                    (case w of None \<Rightarrow> True | Some x \<Rightarrow> wnid_to_node self x = None)))"
proof (intro conjI)
  show a: "\<forall>index. \<exists>r. walk self w2ps index node_root = Some r \<and>
            (case r of Inl e \<Rightarrow> e = IndexError
                     | Inr None \<Rightarrow> True
                     | Inr (Some w) \<Rightarrow> wnid_to_node self w = None)"
    using walk_terminates[OF assms(3) assms(2)] by blast
  have "sample_pred self w2ps node_root index \<noteq> None" for index
  proof -
    from a obtain r where "walk self w2ps index node_root = Some r" by blast
    then show ?thesis by (cases r) (simp_all add: sample_pred_def)
  qed
  then have "for_samples (sample_pred self w2ps node_root) [0..<n_samples] \<noteq> None"
    by (intro for_samples_total) simp
  with assms(1) show "\<exists>res. traverse_tree self predicted w2ps n_samples = Some res"
    by (auto simp: traverse_tree_def split: option.splits sum.splits)
  show "\<forall>index.
            (\<forall>p\<in>S. \<forall>ps sel. w2ps (wnid p) = Some (ps, sel) \<longrightarrow>
                index < length sel \<and> length ps = length (filter id sel)
                \<and> (\<forall>ic\<in>set ps. 0 \<le> ic \<and> ic < int (length (children p))))
            \<longrightarrow> (\<exists>w. walk self w2ps index node_root = Some (Inr w) \<and>
                    (case w of None \<Rightarrow> True | Some x \<Rightarrow> wnid_to_node self x = None))"
    using walk_resolves[OF assms(3) _ assms(2)] by blast
qed

text \<open>
  The two-level example hierarchy is such an \<open>S\<close>, ranked by \<open>ex_rank\<close>, and
  its decision data are in lock-step with the batch at the second sample.
\<close>

theorem hard_routing_terminates_witness:
  "wnid_to_node ex_prior (wnid_root ex_prior) = Some ex_root
   \<and> (\<forall>index. \<exists>r. walk ex_prior ex_selectors index ex_root = Some r)
   \<and> (\<exists>res. traverse_tree ex_prior [] ex_selectors 2 = Some res)
   \<and> (\<exists>w. walk ex_prior ex_selectors 1 ex_root = Some (Inr w))"
proof -
  have r: "wnid_to_node ex_prior (wnid_root ex_prior) = Some ex_root"
    using ex_lookups(1) by (simp add: ex_prior_def)
  have s: "ex_root \<in> set (nodes ex_prior)" by (simp add: ex_prior_def)
  have n: "nodes ex_prior = [ex_root, ex_animal, ex_vehicle]" by (simp add: ex_prior_def)
  have c: "\<forall>p\<in>set (nodes ex_prior). \<forall>c\<in>set (children p). \<forall>q.
             wnid_to_node ex_prior c = Some q \<longrightarrow> q \<in> set (nodes ex_prior) \<and> ex_rank q < ex_rank p"
    unfolding n by (simp add: ex_lookups ex_root_def ex_animal_def ex_vehicle_def ex_rank_def)
  have d: "\<forall>p\<in>set (nodes ex_prior). \<forall>ps sel. ex_selectors (wnid p) = Some (ps, sel) \<longrightarrow>
                1 < length sel \<and> length ps = length (filter id sel)
                \<and> (\<forall>ic\<in>set ps. 0 \<le> ic \<and> ic < int (length (children p)))"
    unfolding n by (auto simp: ex_selectors_def ex_root_def ex_animal_def ex_vehicle_def)
  note t = hard_routing_terminates[OF r s c, of ex_selectors "[]" 2]
  from t[THEN conjunct2, THEN conjunct2, THEN spec, of 1] d
  have "\<exists>w. walk ex_prior ex_selectors 1 ex_root = Some (Inr w)" by blast
  with t r show ?thesis by blast
qed

lemma traverse_tree_cycle:
  "traverse_tree ex_cyclic [] [''n0'' \<mapsto> ([0], [True])] 1 = None"
proof -
  have l: "wnid_to_node ex_cyclic (wnid_root ex_cyclic) = Some ex_cyclic_node"
    by (simp add: wnid_to_node_def ex_cyclic_def ex_cyclic_node_def)
  show ?thesis
    unfolding traverse_tree_def l by (simp add: sample_pred_def walk_cycle)
qed

lemma ex_acyclic_holds: "ex_acyclic"
  by (simp add: ex_acyclic_def ex_prior_def[THEN arg_cong[where f = nodes], simplified]
        ex_lookups ex_root_def ex_animal_def ex_vehicle_def ex_rank_def)

lemma ex_walks:
  "walk ex_prior ex_selectors 0 ex_root = Some (Inr (Some ''n2''))"
  "walk ex_prior ex_selectors (Suc 0) ex_root = Some (Inr None)"
  "walk ex_prior ex_selectors 2 ex_root = Some (Inl IndexError)"
proof -
  have sr: "ex_selectors ''n6'' = Some ([1, 1], [True, True])"
    and sv: "ex_selectors ''n5'' = Some ([0], [True, False])"
    by (simp_all add: ex_selectors_def)
  have "walk ex_prior ex_selectors 0 ex_vehicle =
          (case wnid_to_node ex_prior ''n2'' of None \<Rightarrow> Some (Inr (Some ''n2''))
           | Some nd' \<Rightarrow> walk ex_prior ex_selectors 0 nd')"
    by (rule walk_step[where pred_sub = "[0]" and selector = "[True, False]" and index_child = 0])
       (simp_all add: sv index_new_def getitem_def ex_vehicle_def)
  then have v0: "walk ex_prior ex_selectors 0 ex_vehicle = Some (Inr (Some ''n2''))"
    by (simp add: ex_lookups)
  have v1: "walk ex_prior ex_selectors (Suc 0) ex_vehicle = Some (Inr None)"
    by (rule walk_not_selected[where pred_sub = "[0]" and selector = "[True, False]"])
       (simp_all add: sv ex_vehicle_def)
  have "walk ex_prior ex_selectors 0 ex_root =
          (case wnid_to_node ex_prior ''n5'' of None \<Rightarrow> Some (Inr (Some ''n5''))
           | Some nd' \<Rightarrow> walk ex_prior ex_selectors 0 nd')"
    by (rule walk_step[where pred_sub = "[1, 1]" and selector = "[True, True]" and index_child = 1])
       (simp_all add: sr index_new_def getitem_def ex_root_def)
  then show "walk ex_prior ex_selectors 0 ex_root = Some (Inr (Some ''n2''))"
    by (simp add: ex_lookups v0)
  have "walk ex_prior ex_selectors (Suc 0) ex_root =
          (case wnid_to_node ex_prior ''n5'' of None \<Rightarrow> Some (Inr (Some ''n5''))
           | Some nd' \<Rightarrow> walk ex_prior ex_selectors (Suc 0) nd')"
    by (rule walk_step[where pred_sub = "[1, 1]" and selector = "[True, True]" and index_child = 1])
       (simp_all add: sr index_new_def getitem_def ex_root_def)
  then show "walk ex_prior ex_selectors (Suc 0) ex_root = Some (Inr None)"
    by (simp add: ex_lookups v1)
  show "walk ex_prior ex_selectors 2 ex_root = Some (Inl IndexError)"
    by (subst walk.simps) (simp add: sr ex_root_def)
qed

lemma ex_sample_preds:
  "sample_pred ex_prior ex_selectors ex_root 0 = Some (Inr 2)"
  "sample_pred ex_prior ex_selectors ex_root (Suc 0) = Some (Inr (- 1))"
  "sample_pred ex_prior ex_selectors ex_root 2 = Some (Inl IndexError)"
  unfolding sample_pred_def ex_walks
  by (simp_all add: leaf_pred_def wnid_to_class_def ex_prior_def)

text \<open>
  Acyclic child links alone do not give one of the two outcomes of claim C10:
  on the acyclic example hierarchy, a sample index beyond the selectors of the
  batch ends the walk, and the call, with an \<^verbatim>\<open>IndexError\<close>.
\<close>

theorem walk_index_error:
  "ex_acyclic
   \<and> wnid_to_node ex_prior (wnid_root ex_prior) = Some ex_root
   \<and> walk ex_prior ex_selectors 2 ex_root = Some (Inl IndexError)
   \<and> traverse_tree ex_prior [] ex_selectors 3 = Some (Inl IndexError)"
proof -
  have r: "wnid_to_node ex_prior (wnid_root ex_prior) = Some ex_root"
    using ex_lookups(1) by (simp add: ex_prior_def)
  have u: "[0..<3] = [0, 1, 2]" by (simp add: upt_rec)
  have t: "traverse_tree ex_prior [] ex_selectors 3 = Some (Inl IndexError)"
    unfolding traverse_tree_def r u by (simp add: ex_sample_preds)
  from ex_acyclic_holds r ex_walks(3) t show ?thesis by simp
qed

section \<open>Soft routing: class indices and the single node\<close>



text \<open>soft routing: every prediction is the round trip of a class index\<close>

lemma soft_routing_positions:
  assumes "Bayesian_traverse_tree L self predicted wnid_to_output n_samples = Inr preds"
  shows "length preds = n_samples
       \<and> list_all (\<lambda>p. \<exists>i<length (classes self). p = float32_long (int i)) preds"
proof -
  let ?k = "length (classes self)"
  from assms obtain cp where
    cp: "for_nodes L wnid_to_output ?k (nodes self) (replicate n_samples (replicate ?k (np_one L))) = Inr cp"
    and k: "?k \<noteq> 0" and p: "preds = map (\<lambda>row. float32_long (int (argmax L row))) cp"
    by (auto simp: Bayesian_traverse_tree_def split: sum.splits if_splits)
  from for_nodes_shape[OF cp] have sh: "map length cp = replicate n_samples ?k"
    by (simp add: map_replicate_const)
  then have len: "length cp = n_samples" by (metis length_map length_replicate)
  have "length row = ?k" if "row \<in> set cp" for row
  proof -
    from that have "length row \<in> set (map length cp)" by simp
    then show ?thesis unfolding sh by simp
  qed
  then have "argmax L row < ?k" if "row \<in> set cp" for row
    using that k argmax_less[of row L] by fastforce
  then show ?thesis by (auto simp: p len list_all_iff)
qed

lemma soft_routing_resolves:
  assumes "Bayesian_traverse_tree L self predicted wnid_to_output n_samples = Inr preds"
      and "length (classes self) \<le> 16777216"
  shows "length preds = n_samples
       \<and> list_all (\<lambda>p. 0 \<le> p \<and> p < int (length (classes self))) preds"
proof -
  have "0 \<le> float32_long (int i) \<and> float32_long (int i) < int (length (classes self))"
    if "i < length (classes self)" for i
  proof -
    from that assms(2) have "\<bar>int i\<bar> < 2 ^ 24" by simp
    then have "float32_long (int i) = int i" by (rule float32_long_small)
    with that show ?thesis by simp
  qed
  with soft_routing_positions[OF assms(1)] show ?thesis by (auto simp: list_all_iff)
qed

text \<open>soft routing on a single node\<close>

lemma single_nodeD:
  assumes "single_node self nd"
  shows "nodes self = [nd]" "classes self \<noteq> []" "num_classes nd = length (classes self)"
    "length (children nd) = length (classes self)"
    "\<And>i. i < length (classes self) \<Longrightarrow> new_to_old_classes nd i = Some [i]"
  using assms by (simp_all add: single_node_def list_all_iff)

lemma single_node_scores:
  assumes "single_node self nd" "length row = length (classes self)"
      and "\<forall>x\<in>set row. torch_mean L [x] = x"
  shows "spec_node_scores L nd row = row"
proof -
  note d = single_nodeD[OF assms(1)]
  have "map (spec_class_mean L nd row) [0..<length row] = map ((!) row) [0..<length row]"
    by (rule map_cong) (simp_all add: spec_class_mean_def d(5) assms(2) assms(3))
  then show ?thesis by (simp add: spec_node_scores_def d(3) assms(2)[symmetric] map_nth)
qed

lemma single_node_fold:
  assumes "single_node self nd" "m \<le> length (classes self)"
  shows "fold (spec_multiply_child L nd row) [0..<m] (replicate (length (classes self)) (np_one L))
           = map (\<lambda>j. if j < m then np_mul L (np_one L) (torch_softmax L (spec_node_scores L nd row) ! j)
                       else np_one L)
                 [0..<length (classes self)]"
  using assms(2)
proof (induction m)
  case 0
  show ?case by (rule nth_equalityI) simp_all
next
  case (Suc m)
  note d = single_nodeD[OF assms(1)]
  have m: "m < length (classes self)" using Suc.prems by simp
  have ih: "fold (spec_multiply_child L nd row) [0..<m] (replicate (length (classes self)) (np_one L))
           = map (\<lambda>j. if j < m then np_mul L (np_one L) (torch_softmax L (spec_node_scores L nd row) ! j)
                       else np_one L)
                 [0..<length (classes self)]"
    using Suc by simp
  have "fold (spec_multiply_child L nd row) [0..<Suc m] (replicate (length (classes self)) (np_one L))
          = spec_multiply_child L nd row m
              (map (\<lambda>j. if j < m then np_mul L (np_one L) (torch_softmax L (spec_node_scores L nd row) ! j)
                         else np_one L)
                   [0..<length (classes self)])"
    by (simp only: upt_Suc_append[OF le0] fold_append fold_simps comp_apply ih)
  also have "\<dots> = map (\<lambda>j. if j < Suc m then np_mul L (np_one L) (torch_softmax L (spec_node_scores L nd row) ! j)
                            else np_one L)
                 [0..<length (classes self)]"
    unfolding spec_multiply_child_def d(5)[OF m]
    by (rule nth_equalityI) (auto simp: less_Suc_eq)
  finally show ?case .
qed

lemma single_node_probs:
  assumes "single_node self nd" "length row = length (classes self)"
      and "\<forall>x\<in>set row. torch_mean L [x] = x"
      and "length (torch_softmax L row) = length row"
      and "\<forall>p\<in>set (torch_softmax L row). np_mul L (np_one L) p = p"
  shows "spec_class_probs L (nodes self) (length (classes self)) row = torch_softmax L row"
proof -
  note d = single_nodeD[OF assms(1)]
  have len: "length (torch_softmax L row) = length (classes self)"
    using assms(2,4) by simp
  have "spec_class_probs L (nodes self) (length (classes self)) row
          = fold (spec_multiply_child L nd row) [0..<length (classes self)]
              (replicate (length (classes self)) (np_one L))"
    by (simp add: spec_class_probs_def spec_multiply_node_def d(1,4))
  also have "\<dots> = map (\<lambda>j. if j < length (classes self)
                            then np_mul L (np_one L) (torch_softmax L (spec_node_scores L nd row) ! j)
                            else np_one L)
                     [0..<length (classes self)]"
    by (rule single_node_fold[OF assms(1)]) simp
  also have "\<dots> = torch_softmax L row"
    by (rule nth_equalityI)
       (simp_all add: len single_node_scores[OF assms(1,2,3)] assms(5)[rule_format, OF nth_mem])
  finally show ?thesis .
qed

lemma single_node_routable:
  assumes "single_node self nd" "size1 outputs = length (classes self)"
  shows "soft_routable self outputs"
proof -
  note d = single_nodeD[OF assms(1)]
  show ?thesis
    unfolding soft_routable_def d(1)
    using d(2) by (simp add: d(3,4) assms(2) list_all_iff d(5))
qed

lemma single_node_predicted:
  assumes "single_node self nd" "well_shaped outputs" "size1 outputs = length (classes self)"
      and "list_all (exact_on L) (rows outputs)"
  shows "Bayesian_predicted L self outputs predicted
           = Inr (map (\<lambda>row. float32_long (int (argmax L (torch_softmax L row)))) (rows outputs))"
proof -
  have "map (\<lambda>row. float32_long (spec_soft_prediction L (nodes self) (length (classes self)) row))
            (rows outputs)
          = map (\<lambda>row. float32_long (int (argmax L (torch_softmax L row)))) (rows outputs)"
  proof (rule map_cong[OF refl])
    fix row assume r: "row \<in> set (rows outputs)"
    with assms(2,3) have l: "length row = length (classes self)"
      by (simp add: well_shaped_def list_all_iff)
    from r assms(4) have e: "exact_on L row" by (simp add: list_all_iff)
    have "spec_class_probs L (nodes self) (length (classes self)) row = torch_softmax L row"
      using e by (intro single_node_probs[OF assms(1) l]) (simp_all add: exact_on_def list_all_iff)
    then show "float32_long (spec_soft_prediction L (nodes self) (length (classes self)) row)
                 = float32_long (int (argmax L (torch_softmax L row)))"
      by (simp add: spec_soft_prediction_def)
  qed
  with Bayesian_predicted_spec[OF single_node_routable[OF assms(1,3)], of L predicted]
  show ?thesis by simp
qed


section \<open>IEEE arithmetic on the example rows\<close>

lemma ieee_simps:
  "torch_mean ieee = fp_mean" "torch_softmax ieee = fp_softmax" "np_one ieee = Fin 1"
  "np_mul ieee = fp_mul" "float_le ieee = fp_le" "float_isnan ieee = fp_isnan"
  by (simp_all add: ieee_def)

lemma fp_softmax_length: "length (fp_softmax xs) = length xs"
  by (simp add: fp_softmax_def softmax32_def)

lemma sum32_from_nonneg:
  "(\<forall>x\<in>set xs. 0 \<le> x) \<Longrightarrow> 0 \<le> a \<Longrightarrow> 0 \<le> foldl (\<lambda>a x. round32 (a + x)) a xs"
proof (induction xs arbitrary: a)
  case Nil
  then show ?case by simp
next
  case (Cons x xs)
  have "0 \<le> round32 (a + x)" using Cons.prems by (intro round32_nonneg) simp
  with Cons show ?case by simp
qed

lemma sum32_nonneg: "(\<forall>x\<in>set xs. 0 \<le> x) \<Longrightarrow> 0 \<le> sum32 xs"
  unfolding sum32_def by (rule sum32_from_nonneg) simp_all

lemma softmax32_float64:
  assumes "p \<in> set (softmax32 xs)"
  shows "round64 p = p"
proof -
  let ?e = "\<lambda>y. round32 (exp (round32 (y - Max (set xs))))"
  from assms obtain x where p: "p = round32 (?e x / sum32 (map ?e xs))"
    by (auto simp: softmax32_def)
  have "0 \<le> ?e y" for y by (intro round32_nonneg) simp
  then have "0 \<le> ?e x" "0 \<le> sum32 (map ?e xs)"
    by (simp_all add: sum32_nonneg)
  then have "0 \<le> ?e x / sum32 (map ?e xs)" by (rule divide_nonneg_nonneg)
  then show ?thesis unfolding p by (rule round64_round32)
qed

lemma fp_mul_one:
  assumes "p \<in> set (fp_softmax row)"
  shows "fp_mul (Fin 1) p = p"
proof (cases "list_ex fp_isnan row")
  case True
  with assms have "p = NaN" by (auto simp: fp_softmax_def)
  then show ?thesis by simp
next
  case False
  with assms obtain v where "p = Fin v" "v \<in> set (softmax32 (map fp_val row))"
    by (auto simp: fp_softmax_def)
  then show ?thesis by (simp add: softmax32_float64)
qed

lemma fp_mean_single: "round32 v = v \<Longrightarrow> fp_mean [Fin v] = Fin v"
  by (simp add: fp_mean_def sum32_def)

lemma ieee_exact_on:
  assumes "\<forall>x\<in>set row. \<exists>v. x = Fin v \<and> round32 v = v"
  shows "exact_on ieee row"
  unfolding exact_on_def ieee_simps list_all_iff
proof (intro conjI ballI)
  fix x assume "x \<in> set row"
  with assms obtain v where "x = Fin v" "round32 v = v" by blast
  then show "fp_mean [x] = x" by (simp add: fp_mean_single)
next
  show "length (fp_softmax row) = length row" by (rule fp_softmax_length)
next
  fix p assume "p \<in> set (fp_softmax row)"
  then show "fp_mul (Fin 1) p = p" by (rule fp_mul_one)
qed

lemma softmax32_3:
  "softmax32 [a, b, c] =
     [round32 (round32 (exp (round32 (a - max a (max b c))))
        / round32 (round32 (round32 (round32 (exp (round32 (a - max a (max b c)))))
                              + round32 (exp (round32 (b - max a (max b c)))))
                    + round32 (exp (round32 (c - max a (max b c)))))),
      round32 (round32 (exp (round32 (b - max a (max b c))))
        / round32 (round32 (round32 (round32 (exp (round32 (a - max a (max b c)))))
                              + round32 (exp (round32 (b - max a (max b c)))))
                    + round32 (exp (round32 (c - max a (max b c)))))),
      round32 (round32 (exp (round32 (c - max a (max b c))))
        / round32 (round32 (round32 (round32 (exp (round32 (a - max a (max b c)))))
                              + round32 (exp (round32 (b - max a (max b c)))))
                    + round32 (exp (round32 (c - max a (max b c))))))]"
  by (simp add: softmax32_def sum32_def)



lemma argmax3_first:
  "p1 \<le> p0 \<Longrightarrow> p2 \<le> p0 \<Longrightarrow> argmax ieee [Fin p0, Fin p1, Fin p2] = 0"
  by (simp add: argmax_def ieee_simps)

lemma argmax3_second:
  "p0 < p1 \<Longrightarrow> p2 \<le> p1 \<Longrightarrow> argmax ieee [Fin p0, Fin p1, Fin p2] = 1"
  by (simp add: argmax_def ieee_simps)

lemma round32_quarters:
  "round32 (1 / 4) = 1 / 4" "round32 (1 / 2) = 1 / 2" "round32 (5 / 4) = 5 / 4"
  "round32 (7 / 4) = 7 / 4"
  using round32_frac[of 1 2] round32_frac[of 1 1] round32_frac[of 5 2] round32_frac[of 7 2]
  by simp_all

lemma argmax_softmax_132: "argmax ieee (fp_softmax [Fin 1, Fin 3, Fin 2]) = 1"
proof -
  define A where "A = round32 (exp (- 2))"
  define B where "B = round32 (exp (- 1))"
  define S where "S = round32 (round32 (round32 A + 1) + B)"
  have m: "max (1::real) (max 3 2) = 3" by simp
  have d: "(1::real) - 3 = - 2" "(3::real) - 3 = 0" "(2::real) - 3 = - 1" by simp_all
  have r: "round32 (- 2) = - 2" "round32 (- 1) = - 1"
    using round32_int[of "- 1"] by (simp_all add: round32_neg_numeral)
  have sm: "softmax32 [1, 3, 2] = [round32 (A / S), round32 (1 / S), round32 (B / S)]"
    unfolding softmax32_3 m d r round32_0 exp_zero round32_1 A_def B_def S_def ..
  have A: "0 \<le> A" "A \<le> 1 / 4"
  proof -
    show "0 \<le> A" unfolding A_def by (intro round32_nonneg) simp
    have "round32 (exp (- 2)) \<le> round32 (1 / 4)" by (intro round32_mono exp_m2) simp
    then show "A \<le> 1 / 4" by (simp add: A_def round32_quarters)
  qed
  have B: "0 \<le> B" "B \<le> 1 / 2"
  proof -
    show "0 \<le> B" unfolding B_def by (intro round32_nonneg) simp
    have "round32 (exp (- 1)) \<le> round32 (1 / 2)" by (intro round32_mono exp_m1) simp
    then show "B \<le> 1 / 2" by (simp add: B_def round32_quarters)
  qed
  have rA: "0 \<le> round32 A" "round32 A \<le> 1 / 4"
  proof -
    show "0 \<le> round32 A" using A(1) by (rule round32_nonneg)
    have "round32 A \<le> round32 (1 / 4)" using A by (intro round32_mono)
    then show "round32 A \<le> 1 / 4" by (simp add: round32_quarters)
  qed
  have T: "1 \<le> round32 (round32 A + 1)" "round32 (round32 A + 1) \<le> 5 / 4"
  proof -
    have "round32 1 \<le> round32 (round32 A + 1)" using rA by (intro round32_mono) simp_all
    then show "1 \<le> round32 (round32 A + 1)" by (simp add: round32_1)
    have "round32 (round32 A + 1) \<le> round32 (5 / 4)" using rA by (intro round32_mono) simp_all
    then show "round32 (round32 A + 1) \<le> 5 / 4" by (simp add: round32_quarters)
  qed
  have S: "1 \<le> S" "S \<le> 7 / 4"
  proof -
    have "round32 1 \<le> S" unfolding S_def using T B by (intro round32_mono) simp_all
    then show "1 \<le> S" by (simp add: round32_1)
    have "S \<le> round32 (7 / 4)" unfolding S_def using T B by (intro round32_mono) simp_all
    then show "S \<le> 7 / 4" by (simp add: round32_quarters)
  qed
  have p1: "1 / 2 \<le> round32 (1 / S)"
  proof -
    have "1 / 2 \<le> 1 / S" using S by (simp add: field_simps)
    then have "round32 (1 / 2) \<le> round32 (1 / S)" by (intro round32_mono) simp_all
    then show ?thesis by (simp add: round32_quarters)
  qed
  have p0: "round32 (A / S) \<le> 1 / 4"
  proof -
    have "A / S \<le> A / 1" using S A by (intro divide_left_mono) simp_all
    then have "A / S \<le> 1 / 4" using A(2) by linarith
    moreover have "0 \<le> A / S" using A S by simp
    ultimately have "round32 (A / S) \<le> round32 (1 / 4)" by (intro round32_mono)
    then show ?thesis by (simp add: round32_quarters)
  qed
  have p2: "round32 (B / S) \<le> round32 (1 / S)"
  proof -
    have "B / S \<le> 1 / S" using B S by (intro divide_right_mono) simp_all
    moreover have "0 \<le> B / S" using B S by simp
    ultimately show ?thesis by (intro round32_mono)
  qed
  have "fp_softmax [Fin 1, Fin 3, Fin 2]
          = [Fin (round32 (A / S)), Fin (round32 (1 / S)), Fin (round32 (B / S))]"
    by (simp add: fp_softmax_def sm)
  moreover have "round32 (A / S) < round32 (1 / S)" using p0 p1 by simp
  ultimately show ?thesis using p2 by (simp only: argmax3_second)
qed

lemma argmax_softmax_400: "argmax ieee (fp_softmax [Fin 4, Fin 0, Fin 0]) = 0"
proof -
  define C where "C = round32 (exp (- 4))"
  define S where "S = round32 (round32 (round32 1 + C) + C)"
  have m: "max (4::real) (max 0 0) = 4" by simp
  have d: "(4::real) - 4 = 0" "(0::real) - 4 = - 4" by simp_all
  have r: "round32 (- 4) = - 4" by (simp add: round32_neg_numeral)
  have sm: "softmax32 [4, 0, 0] = [round32 (1 / S), round32 (C / S), round32 (C / S)]"
    unfolding softmax32_3 m d r round32_0 exp_zero round32_1 C_def S_def ..
  have C: "0 \<le> C" "C \<le> 1"
  proof -
    show "0 \<le> C" unfolding C_def by (intro round32_nonneg) simp
    have "round32 (exp (- 4)) \<le> round32 1" by (intro round32_mono) simp_all
    then show "C \<le> 1" by (simp add: C_def round32_1)
  qed
  have S: "0 \<le> S"
    unfolding S_def using C by (intro round32_nonneg add_nonneg_nonneg) (simp_all add: round32_1)
  have p: "round32 (C / S) \<le> round32 (1 / S)"
  proof -
    have "C / S \<le> 1 / S" using C S by (intro divide_right_mono) simp_all
    moreover have "0 \<le> C / S" using C S by simp
    ultimately show ?thesis by (intro round32_mono)
  qed
  have "fp_softmax [Fin 4, Fin 0, Fin 0]
          = [Fin (round32 (1 / S)), Fin (round32 (C / S)), Fin (round32 (C / S))]"
    by (simp add: fp_softmax_def sm)
  then show ?thesis using p by (simp only: argmax3_first)
qed



section \<open>Decision data, running totals, hooks and the single node on the examples\<close>

lemma round32_five_halves: "round32 (5 / 2) = 5 / 2"
  using round32_frac[of 5 1] by simp

lemma ex_sel_eval:
  "pred_selectors ieee (TreeSup_inference (spec_node_scores ieee)) (nodes ex_prior) ex_outputs
       [2, 0] Map.empty
     = Inr [''n6'' \<mapsto> ([1, 0], [True, True]), ''n4'' \<mapsto> ([0], [False, True]),
            ''n5'' \<mapsto> ([0], [True, False])]"
  by (simp add: ex_prior_def ex_root_def ex_animal_def ex_vehicle_def ex_outputs_def
        TreeSup_inference_def applicable_def local_target_def max_dim1_def
        spec_node_scores_def spec_class_mean_def argmax_def upt_rec numeral_2_eq_2
        ieee_simps fp_mean_def sum32_def round32_0 round32_1 round32_numeral
        round32_five_halves)

lemma ex_sel_eval':
  "pred_selectors ieee (TreeSup_inference (spec_node_scores ieee)) (nodes ex_prior) ex_outputs
       [2, 3] Map.empty
     = Inr [''n6'' \<mapsto> ([1, 0], [True, True]), ''n5'' \<mapsto> ([0, 0], [True, True])]"
  by (simp add: ex_prior_def ex_root_def ex_animal_def ex_vehicle_def ex_outputs_def
        TreeSup_inference_def applicable_def local_target_def max_dim1_def
        spec_node_scores_def spec_class_mean_def argmax_def upt_rec numeral_2_eq_2
        ieee_simps fp_mean_def sum32_def round32_0 round32_1 round32_numeral
        round32_five_halves)

theorem decision_data_shape_witness:
  "pred_selectors ieee (TreeSup_inference (spec_node_scores ieee)) (nodes ex_prior) ex_outputs [2, 0] Map.empty
     = Inr [''n6'' \<mapsto> ([1, 0], [True, True]), ''n4'' \<mapsto> ([0], [False, True]),
            ''n5'' \<mapsto> ([0], [True, False])]
   \<and> length [False, True] = length (rows ex_outputs)
   \<and> length [0 :: int] = length (filter id [False, True])
   \<and> list_ex id [False, True]
   \<and> pred_selectors ieee (TreeSup_inference (spec_node_scores ieee)) (nodes ex_prior) ex_outputs [2, 3] Map.empty
     = Inr [''n6'' \<mapsto> ([1, 0], [True, True]), ''n5'' \<mapsto> ([0, 0], [True, True])]
   \<and> \<not> list_ex id (map (applicable ex_animal) [2, 3])
   \<and> [''n6'' \<mapsto> ([1 :: int, 0], [True, True]), ''n5'' \<mapsto> ([0, 0], [True, True])] (wnid ex_animal) = None"
proof -
  have a: "length [False, True] = length (rows ex_outputs)
   \<and> length [0 :: int] = length (filter id [False, True])
   \<and> list_ex id [False, True]"
    by (rule decision_data_shape[OF ex_sel_eval, THEN conjunct1, rule_format, of "''n4''"]) simp
  have n: "\<not> list_ex id (map (applicable ex_animal) [2, 3])"
    by (simp add: applicable_def ex_animal_def upt_rec numeral_2_eq_2)
  have b: "[''n6'' \<mapsto> ([1 :: int, 0], [True, True]), ''n5'' \<mapsto> ([0, 0], [True, True])] (wnid ex_animal) = None"
  proof -
    have m: "ex_animal \<in> set (nodes ex_prior)" by (simp add: ex_prior_def)
    have "wnid ex_root \<noteq> wnid ex_animal" "wnid ex_vehicle \<noteq> wnid ex_animal"
      by (simp_all add: ex_root_def ex_animal_def ex_vehicle_def)
    then have h: "\<forall>nd'\<in>set (nodes ex_prior). wnid nd' = wnid ex_animal
                \<longrightarrow> \<not> list_ex id (map (applicable nd') [2, 3])"
      using n by (simp add: ex_prior_def)
    from decision_data_shape[OF ex_sel_eval', THEN conjunct2, THEN bspec, OF m, THEN mp, OF h]
    show ?thesis .
  qed
  from a b n ex_sel_eval ex_sel_eval' show ?thesis by simp
qed

lemma bookkeeping_counters:
  assumes "length predicted = length targets"
  shows "total (fst (bookkeeping self n predicted targets)) = total self + n"
    and "correct (fst (bookkeeping self n predicted targets))
           = correct self + length (filter (\<lambda>pt. fst pt = snd pt) (zip predicted targets))"
  using assms by (simp_all add: bookkeeping_def count_equal_def Let_def)

lemma bookkeeping_monotone:
  "total self \<le> total (fst (bookkeeping self n predicted targets))"
  "correct self \<le> correct (fst (bookkeeping self n predicted targets))"
  by (auto simp: bookkeeping_def Let_def split: sum.splits)

lemma IgnoredSamples_start_test_resets:
  "IgnoredSamples_start_test e self = Inr self' \<Longrightarrow> ignored self' = Some 0"
  by (auto simp: IgnoredSamples_start_test_def split: sum.splits)

lemma start_test_keeps_counters:
  "start_test e self = Inr self' \<Longrightarrow> total self' = total self \<and> correct self' = correct self"
  by (auto simp: start_test_def split: if_splits)

lemma ex_flat_single: "single_node (start_epoch e ex_flat) ex_flat_node"
  by (simp add: single_node_def start_epoch_def ex_flat_def ex_flat_node_def upt_rec numeral_3_eq_3)

lemma epoch_mismatch_raises:
  assumes "epoch self \<noteq> Some e"
  shows "start_train e self = Inl AssertionError" "end_train e self = Inl AssertionError"
    "start_test e self = Inl AssertionError" "end_test e self = Inl AssertionError"
    "end_epoch e self = Inl AssertionError"
  using assms by (simp_all add: start_train_def end_train_def start_test_def end_test_def end_epoch_def)

lemma epoch_match_returns:
  assumes "epoch self = Some e"
  shows "start_train e self = Inr self" "end_train e self = Inr self"
    "start_test e self = Inr self" "end_test e self = Inr self"
    "end_epoch e self = Inr self"
  using assms by (simp_all add: start_train_def end_train_def start_test_def end_test_def end_epoch_def)

lemma DecisionTreePrior_end_test_checks:
  "epoch self \<noteq> Some e \<Longrightarrow> DecisionTreePrior_end_test e self = Inl AssertionError"
  by (simp add: DecisionTreePrior_end_test_def end_test_def)

lemma Bayesian_end_test_any_epoch:
  "Bayesian_end_test e self = Bayesian_end_test e' self"
  by (simp add: Bayesian_end_test_def)

text \<open>
  Claim C5. Every start/end hook but \<^verbatim>\<open>start_epoch\<close> is said to fail on
  an epoch other than the one \<^verbatim>\<open>start_epoch\<close> set. The hooks of
  \<^verbatim>\<open>Noop\<close> and \<^verbatim>\<open>DecisionTreePrior.end_test\<close> do;
  \<^verbatim>\<open>DecisionTreeBayesianPrior.end_test\<close> returns on epoch \<open>1\<close> for an
  object whose epoch is \<open>0\<close>.
\<close>

theorem Bayesian_end_test_epoch_unchecked:
  "Bayesian_end_test 1 (ex_flat\<lparr>epoch := Some 0, correct := 1, total := 2\<rparr>)
     = Inr (ex_flat\<lparr>epoch := Some 0, correct := 1, total := 2\<rparr>)
   \<and> DecisionTreePrior_end_test 1 (ex_flat\<lparr>epoch := Some 0, correct := 1, total := 2\<rparr>)
     = Inl AssertionError"
  by (simp add: Bayesian_end_test_def DecisionTreePrior_end_test_def end_test_def ex_flat_def)

lemma float32_long_0_1: "float32_long 0 = 0" "float32_long 1 = 1"
  by (simp_all add: float32_long_small)

lemma ex_flat_exact:
  "list_all (exact_on ieee) (rows ex_flat_outputs)"
  "list_all (exact_on ieee) (rows ex_sharp_outputs)"
  "list_all (exact_on ieee) (rows ex_close_outputs)"
proof -
  have r: "round32 (1 / 2 ^ 30) = 1 / 2 ^ 30" using round32_frac[of 1 30] by simp
  show "list_all (exact_on ieee) (rows ex_flat_outputs)"
    unfolding ex_flat_outputs_def
    by (simp add: ieee_exact_on round32_0 round32_1 round32_numeral)
  show "list_all (exact_on ieee) (rows ex_sharp_outputs)"
    unfolding ex_sharp_outputs_def
    by (simp add: ieee_exact_on round32_0 round32_1 round32_numeral)
  show "list_all (exact_on ieee) (rows ex_close_outputs)"
    unfolding ex_close_outputs_def
    by (simp add: ieee_exact_on round32_0 r del: power_numeral)
qed

lemma ex_flat_predicted:
  "Bayesian_predicted ieee (start_epoch e ex_flat) ex_flat_outputs predicted = Inr [1, 0]"
proof -
  have w: "well_shaped ex_flat_outputs" by (simp add: well_shaped_def ex_flat_outputs_def)
  have s: "size1 ex_flat_outputs = length (classes (start_epoch e ex_flat))"
    by (simp add: ex_flat_outputs_def start_epoch_def ex_flat_def)
  have r: "rows ex_flat_outputs = [[Fin 1, Fin 3, Fin 2], [Fin 4, Fin 0, Fin 0]]"
    by (simp add: ex_flat_outputs_def)
  show ?thesis
    unfolding single_node_predicted[OF ex_flat_single w s ex_flat_exact(1)] r ieee_simps
    by (simp add: argmax_softmax_132[unfolded ieee_simps] argmax_softmax_400[unfolded ieee_simps]
          float32_long_0_1)
qed

text \<open>
  Claim C4. The counters \<^verbatim>\<open>correct\<close> and \<^verbatim>\<open>total\<close> are said to be reset
  by \<^verbatim>\<open>start_test\<close>. Each \<^verbatim>\<open>update_batch\<close> does add the batch size and
  the number of matches (\<open>bookkeeping_counters\<close>), but \<^verbatim>\<open>start_test\<close> is
  \<^verbatim>\<open>Noop\<close>'s and leaves them as they are, where
  \<^verbatim>\<open>IgnoredSamples.start_test\<close> resets its counter: after a test phase of
  epoch \<open>0\<close> with one batch of two samples, one of them predicted right, the
  test phase of epoch \<open>1\<close> starts with \<open>total = 2\<close> and \<open>correct = 1\<close>.
\<close>

theorem counters_survive_start_test:
  "start_test 0 (start_epoch 0 ex_flat) = Inr (start_epoch 0 ex_flat)
   \<and> Bayesian_update_batch ieee (start_epoch 0 ex_flat) ex_flat_outputs [] [1, 2]
       = (ex_flat\<lparr>epoch := Some 0, correct := 1, total := 2\<rparr>, None)
   \<and> Bayesian_end_test 0 (ex_flat\<lparr>epoch := Some 0, correct := 1, total := 2\<rparr>)
       = Inr (ex_flat\<lparr>epoch := Some 0, correct := 1, total := 2\<rparr>)
   \<and> end_epoch 0 (ex_flat\<lparr>epoch := Some 0, correct := 1, total := 2\<rparr>)
       = Inr (ex_flat\<lparr>epoch := Some 0, correct := 1, total := 2\<rparr>)
   \<and> start_test 1 (start_epoch 1 (ex_flat\<lparr>epoch := Some 0, correct := 1, total := 2\<rparr>))
       = Inr (ex_flat\<lparr>epoch := Some 1, correct := 1, total := 2\<rparr>)"
proof -
  have "Bayesian_update_batch ieee (start_epoch 0 ex_flat) ex_flat_outputs [] [1, 2]
          = bookkeeping (start_epoch 0 ex_flat) (length (rows ex_flat_outputs)) [1, 0] [1, 2]"
    unfolding Bayesian_update_batch_def ex_flat_predicted by simp
  also have "\<dots> = (ex_flat\<lparr>epoch := Some 0, correct := 1, total := 2\<rparr>, None)"
    by (simp add: bookkeeping_def count_equal_def start_epoch_def ex_flat_def ex_flat_outputs_def)
  finally show ?thesis
    by (simp add: start_test_def end_epoch_def Bayesian_end_test_def start_epoch_def ex_flat_def)
qed




section \<open>Soft routing beyond \<open>2^24\<close> classes\<close>

lemma nth_prefix_upt: "map (\<lambda>i. (replicate n a @ [b]) ! i) [0..<n] = replicate n a"
  by (rule nth_equalityI) (simp_all add: nth_append)

lemma sum32_zeros: "sum32 (replicate n 0) = 0"
  unfolding sum32_def by (induction n) (simp_all add: round32_0)

lemma fp_mean_zeros: "0 < n \<Longrightarrow> fp_mean (replicate n (Fin 0)) = Fin 0"
  by (simp add: fp_mean_def list_ex_iff sum32_zeros round32_0)

lemma fp_mean_200: "fp_mean [Fin 200] = Fin 200"
  by (rule fp_mean_single) (simp add: round32_numeral)

lemma wide_scores:
  assumes "0 < n"
  shows "spec_node_scores ieee (wide_node n) (replicate n (Fin 0) @ [Fin 200]) = [Fin 0, Fin 200]"
proof -
  have u: "[0..<2] = [0, Suc 0]" by (simp add: upt_rec numeral_2_eq_2)
  have g: "new_to_old_classes (wide_node n) 0 = Some [0..<n]"
    "new_to_old_classes (wide_node n) (Suc 0) = Some [n]"
    "num_classes (wide_node n) = 2"
    by (simp_all add: wide_node_def)
  have m0: "spec_class_mean ieee (wide_node n) (replicate n (Fin 0) @ [Fin 200]) 0 = Fin 0"
    unfolding spec_class_mean_def g option.sel nth_prefix_upt ieee_simps
    by (rule fp_mean_zeros[OF assms])
  have m1: "spec_class_mean ieee (wide_node n) (replicate n (Fin 0) @ [Fin 200]) (Suc 0) = Fin 200"
    unfolding spec_class_mean_def g option.sel ieee_simps
    by (simp add: nth_append fp_mean_200)
  show ?thesis
    unfolding spec_node_scores_def g u by (simp add: m0 m1)
qed

lemma softmax32_2:
  "softmax32 [a, b] =
     [round32 (round32 (exp (round32 (a - max a b)))
        / round32 (round32 (round32 (exp (round32 (a - max a b))))
                    + round32 (exp (round32 (b - max a b))))),
      round32 (round32 (exp (round32 (b - max a b)))
        / round32 (round32 (round32 (exp (round32 (a - max a b))))
                    + round32 (exp (round32 (b - max a b)))))]"
  by (simp add: softmax32_def sum32_def)

lemma fp_softmax_0_200: "fp_softmax [Fin 0, Fin 200] = [Fin 0, Fin 1]"
proof -
  have m: "max (0::real) 200 = 200" by simp
  have d: "(0::real) - 200 = - 200" "(200::real) - 200 = 0" by simp_all
  have r: "round32 (- 200) = - 200" by (simp add: round32_neg_numeral)
  have "softmax32 [0, 200] = [0, 1]"
    unfolding softmax32_2 m d r round32_0 exp_zero round32_exp_m200 round32_1
    by (simp add: round32_1 round32_0)
  then show ?thesis by (simp add: fp_softmax_def)
qed

lemma wide_probs:
  assumes "0 < n"
  shows "spec_class_probs ieee [wide_node n] (Suc n) (replicate n (Fin 0) @ [Fin 200])
           = replicate n (Fin 0) @ [Fin 1]"
proof -
  let ?row = "replicate n (Fin 0) @ [Fin 200]"
  have u: "[0..<2] = [0, Suc 0]" by (simp add: upt_rec numeral_2_eq_2)
  have g: "the (new_to_old_classes (wide_node n) 0) = [0..<n]"
    "the (new_to_old_classes (wide_node n) (Suc 0)) = [n]"
    "length (children (wide_node n)) = 2"
    by (simp_all add: wide_node_def)
  have sm: "torch_softmax ieee (spec_node_scores ieee (wide_node n) ?row) = [Fin 0, Fin 1]"
    by (simp add: wide_scores[OF assms] ieee_simps fp_softmax_0_200)
  have c0: "spec_multiply_child ieee (wide_node n) ?row 0 (replicate (Suc n) (Fin 1))
              = replicate n (Fin 0) @ [Fin 1]"
    unfolding spec_multiply_child_def g sm
    by (rule nth_equalityI)
       (auto simp: nth_append ieee_simps round64_0 less_Suc_eq simp del: replicate_Suc)
  have c1: "spec_multiply_child ieee (wide_node n) ?row (Suc 0) (replicate n (Fin 0) @ [Fin 1])
              = replicate n (Fin 0) @ [Fin 1]"
    unfolding spec_multiply_child_def g sm
    by (rule nth_equalityI) (auto simp: nth_append ieee_simps round64_1)
  have "spec_class_probs ieee [wide_node n] (Suc n) ?row
          = spec_multiply_child ieee (wide_node n) ?row (Suc 0)
              (spec_multiply_child ieee (wide_node n) ?row 0 (replicate (Suc n) (Fin 1)))"
    by (simp add: spec_class_probs_def spec_multiply_node_def g u ieee_simps del: replicate_Suc)
  then show ?thesis unfolding c0 c1 .
qed

lemma argmax_from_replicate:
  "\<not> float_isnan L mp \<Longrightarrow> float_le L x mp
     \<Longrightarrow> argmax_from L b mp i (replicate k x @ rest) = argmax_from L b mp (i + k) rest"
  by (induction k arbitrary: i) simp_all

lemma argmax_wide:
  assumes "0 < n"
  shows "argmax ieee (replicate n (Fin 0) @ [Fin 1]) = n"
proof -
  from assms obtain k where n: "n = Suc k" by (cases n) simp_all
  have "argmax ieee (replicate n (Fin 0) @ [Fin 1])
          = argmax_from ieee 0 (Fin 0) 1 (replicate k (Fin 0) @ [Fin 1])"
    by (simp add: n argmax_def)
  also have "\<dots> = argmax_from ieee 0 (Fin 0) (1 + k) [Fin 1]"
    by (rule argmax_from_replicate) (simp_all add: ieee_simps)
  also have "\<dots> = n" by (simp add: n ieee_simps)
  finally show ?thesis .
qed

lemma wide_prediction:
  assumes "0 < n"
  shows "spec_soft_prediction ieee [wide_node n] (Suc n) (replicate n (Fin 0) @ [Fin 200]) = int n"
  unfolding spec_soft_prediction_def wide_probs[OF assms] argmax_wide[OF assms] ..

lemma wide_facts:
  "nodes (wide_prior n) = [wide_node n]" "length (classes (wide_prior n)) = Suc n"
  "rows (wide_outputs n) = [replicate n (Fin 0) @ [Fin 200]]" "size1 (wide_outputs n) = Suc n"
  by (simp_all add: wide_prior_def wide_outputs_def)

lemma wide_routable: "soft_routable (wide_prior n) (wide_outputs n)"
proof -
  have u: "[0..<2] = [0, Suc 0]" by (simp add: upt_rec numeral_2_eq_2)
  have c: "classes (wide_prior n) \<noteq> []"
    using wide_facts(2)[of n] by (simp only: length_greater_0_conv[symmetric]) 
  show ?thesis
    unfolding soft_routable_def wide_facts
    using c by (simp add: wide_node_def u list_all_iff)
qed

lemma wide_predicted:
  assumes "0 < n"
  shows "Bayesian_predicted ieee (wide_prior n) (wide_outputs n) predicted
           = Inr [float32_long (int n)]"
  unfolding Bayesian_predicted_spec[OF wide_routable] wide_facts
  by (simp add: wide_prediction[OF assms])

lemma wide_traverse_tree:
  assumes "0 < n"
  shows "Bayesian_traverse_tree ieee (wide_prior n) predicted
            [''r'' \<mapsto> \<lparr>size1 = 2, rows = [[Fin 0, Fin 200]]\<rparr>] 1
           = Inr [float32_long (int n)]"
proof -
  let ?rs = "[replicate n (Fin 0) @ [Fin 200]]"
  have c: "classes (wide_prior n) \<noteq> []"
    using wide_facts(2)[of n] by (simp only: length_greater_0_conv[symmetric])
  have pre: "\<forall>nd\<in>set (nodes (wide_prior n)).
             [''r'' \<mapsto> \<lparr>size1 = 2, rows = [[Fin 0, Fin 200]]\<rparr>] (wnid nd)
               = Some \<lparr>size1 = num_classes nd, rows = map (spec_node_scores ieee nd) ?rs\<rparr>
             \<and> length (children nd) \<le> num_classes nd
             \<and> (\<forall>c<length (children nd).
                   \<exists>olds. new_to_old_classes nd c = Some olds
                      \<and> list_all (\<lambda>j. j < length (classes (wide_prior n))) olds)"
    unfolding wide_facts
    by (simp add: wide_scores[OF assms] less_Suc_eq numeral_2_eq_2 list_all_iff)
       (simp add: wide_node_def list_all_iff)
  have "Bayesian_traverse_tree ieee (wide_prior n) predicted
            [''r'' \<mapsto> \<lparr>size1 = 2, rows = [[Fin 0, Fin 200]]\<rparr>] (length ?rs)
          = Inr (map (\<lambda>row. float32_long
                         (spec_soft_prediction ieee (nodes (wide_prior n))
                            (length (classes (wide_prior n))) row)) ?rs)"
    by (rule Bayesian_traverse_tree_ok[OF pre c])
  then show ?thesis unfolding wide_facts by (simp add: wide_prediction[OF assms])
qed

text \<open>
  Claim C2. \<^verbatim>\<open>DecisionTreeBayesianPrior.update_batch\<close> is said to return,
  for every sample, the argmax of the class probabilities that start at one
  and are multiplied, for every node and every child, at the classes the child
  owns, by the softmax of the node's mean scores at that child. On inputs on
  which no step raises, the code computes that argmax for every sample
  (\<open>outputs_by_wnid_ok\<close>, \<open>Bayesian_traverse_tree_ok\<close>) and returns it after
  \<^verbatim>\<open>torch.Tensor(preds).long()\<close>, which takes it through float32
  (\<open>Bayesian_predicted_spec\<close>). With \<open>16777220\<close> classes, a node that splits
  the first \<open>16777219\<close> from the last, and a sample that scores \<open>200\<close> on the
  last class and \<open>0\<close> elsewhere, the argmax is \<open>16777219\<close> and the call
  returns \<open>16777220\<close>.
\<close>

theorem soft_routing_float32_index:
  "Bayesian_predicted ieee (wide_prior 16777219) (wide_outputs 16777219) [] = Inr [16777220]
   \<and> map (spec_soft_prediction ieee (nodes (wide_prior 16777219))
            (length (classes (wide_prior 16777219))))
         (rows (wide_outputs 16777219)) = [16777219]"
proof -
  have i: "int 16777219 = 16777219" by simp
  have p: "(0::nat) < 16777219" by simp
  have a: "Bayesian_predicted ieee (wide_prior 16777219) (wide_outputs 16777219) [] = Inr [16777220]"
    unfolding wide_predicted[OF p] i float32_long_16777219 ..
  have b: "map (spec_soft_prediction ieee (nodes (wide_prior 16777219))
            (length (classes (wide_prior 16777219))))
         (rows (wide_outputs 16777219)) = [16777219]"
    unfolding wide_facts by (simp only: list.map wide_prediction[OF p] i)
  from a b show ?thesis ..
qed

text \<open>
  Claim C9. Every prediction of \<^verbatim>\<open>DecisionTreeBayesianPrior.traverse_tree\<close>
  is said to be a class index, from \<open>0\<close> to the number of classes minus one.
  A prediction is the float32 round trip of the position of a class
  (\<open>soft_routing_positions\<close>), hence a class index, and never \<open>-1\<close>, with at
  most \<open>2^24\<close> classes (\<open>soft_routing_resolves\<close>). On the hierarchy of
  \<open>16777220\<close> classes, with node scores \<open>0\<close> and \<open>200\<close> for the one sample,
  the call returns \<open>16777220\<close>: the number of classes, which is no index of
  a class.
\<close>

theorem soft_routing_out_of_range:
  "Bayesian_traverse_tree ieee (wide_prior 16777219) []
       [''r'' \<mapsto> \<lparr>size1 = 2, rows = [[Fin 0, Fin 200]]\<rparr>] 1 = Inr [16777220]
   \<and> int (length (classes (wide_prior 16777219))) = 16777220"
proof -
  have i: "int 16777219 = 16777219" by simp
  have p: "(0::nat) < 16777219" by simp
  have a: "Bayesian_traverse_tree ieee (wide_prior 16777219) []
       [''r'' \<mapsto> \<lparr>size1 = 2, rows = [[Fin 0, Fin 200]]\<rparr>] 1 = Inr [16777220]"
    unfolding wide_traverse_tree[OF p] i float32_long_16777219 ..
  have b: "int (length (classes (wide_prior 16777219))) = 16777220"
    unfolding wide_facts by simp
  from a b show ?thesis ..
qed

end
